theory Spec2Isabelle
  imports Main
begin

section \<open>Data model of ope.go\<close>

text \<open>
  Error carriers. \<open>OperatorError\<close> and \<open>SequenceError\<close> are the two struct types of
  ope.go; \<open>OtherError\<close> stands for any other value of the Go interface \<open>error\<close>, which
  only a \<open>user\<close> function can produce.
\<close>

datatype error =
    OperatorError (Expected: "string list") (Got: string) (Line: int) (Col: int) (Length: int)
  | SequenceError (Errs: "error list")
  | OtherError string

text \<open>
  \<open>Any\<close> is the empty interface. The model keeps the dynamic types that the accessors of
  \<open>Values\<close> name and that have an exact counterpart in HOL, and a slice of values.
\<close>

datatype any = ANil | AStr string | AInt int | ABool bool | AList "any list"

datatype Token = Token (TokPos: int) (TokS: string)

record Values =
  SS :: string
  Vs :: "any list"
  Pos :: int
  S :: string
  Choice :: int
  Ts :: "Token list"

text \<open>
  Outcome of running Go code: it returns, it panics (an index or slice out of range, a nil
  dereference), or it has not returned within the fuel given to it.
\<close>

datatype 'r exec = Diverged | Panic | Return 'r

definition andThen :: "'a exec \<Rightarrow> ('a \<Rightarrow> 'b exec) \<Rightarrow> 'b exec" where
  "andThen m f = (case m of Diverged \<Rightarrow> Diverged | Panic \<Rightarrow> Panic | Return r \<Rightarrow> f r)"

text \<open>
  The operator variants, one constructor per struct type of ope.go, named as the struct.
  A \<open>literalString\<close> node carries mutable per-node state (\<open>initIsWord\<close>, \<open>isWord\<close>), so
  the node is identified by an address and that state lives in a heap (below). A
  \<open>reference\<close> holds a pointer to a rule, which is an address into the rule table, or nil.
  The function of a \<open>user\<close> node is arbitrary Go code: it returns a length and an error and
  may have written to the frame it was handed, or it panics or does not return.
  Child operators are never nil in this model.
\<close>

datatype operator =
    sequence "operator list"
  | prioritizedChoice "operator list"
  | zeroOrMore operator
  | oneOrMore operator
  | option operator
  | andPredicate operator
  | notPredicate operator
  | literalString (lit: string) (addr: nat)
  | characterClass string
  | anyCharacter
  | tokenBoundary operator
  | ignore operator
  | user "string \<Rightarrow> int \<Rightarrow> Values \<Rightarrow> any \<Rightarrow> (int \<times> error option \<times> Values) exec"
  | reference (name: string) (iarg: int) (args: "operator list") (iargs: "int list")
      (pos: int) (rule: "nat option")
  | whitespace operator

text \<open>The constructor functions at the end of ope.go.\<close>

definition Seq :: "operator list \<Rightarrow> operator" where "Seq opes = sequence opes"
definition Cho :: "operator list \<Rightarrow> operator" where "Cho opes = prioritizedChoice opes"
definition Zom :: "operator \<Rightarrow> operator" where "Zom ope = zeroOrMore ope"
definition Oom :: "operator \<Rightarrow> operator" where "Oom ope = oneOrMore ope"
definition Opt :: "operator \<Rightarrow> operator" where "Opt ope = option ope"
definition Apd :: "operator \<Rightarrow> operator" where "Apd ope = andPredicate ope"
definition Npd :: "operator \<Rightarrow> operator" where "Npd ope = notPredicate ope"
definition Cls :: "string \<Rightarrow> operator" where "Cls chars = characterClass chars"
definition Dot :: operator where "Dot = anyCharacter"
definition Tok :: "operator \<Rightarrow> operator" where "Tok ope = tokenBoundary ope"
definition Ign :: "operator \<Rightarrow> operator" where "Ign ope = ignore ope"
definition Wsp :: "operator \<Rightarrow> operator" where "Wsp ope = whitespace (Ign ope)"

text \<open>
  \<open>Label\<close> is \<open>reflect.TypeOf(o.derived).String()[5:]\<close>: the type name after \<open>*peg.\<close>.
\<close>

fun Label :: "operator \<Rightarrow> string" where
  "Label (sequence _) = ''sequence''"
| "Label (prioritizedChoice _) = ''prioritizedChoice''"
| "Label (zeroOrMore _) = ''zeroOrMore''"
| "Label (oneOrMore _) = ''oneOrMore''"
| "Label (option _) = ''option''"
| "Label (andPredicate _) = ''andPredicate''"
| "Label (notPredicate _) = ''notPredicate''"
| "Label (literalString _ _) = ''literalString''"
| "Label (characterClass _) = ''characterClass''"
| "Label anyCharacter = ''anyCharacter''"
| "Label (tokenBoundary _) = ''tokenBoundary''"
| "Label (ignore _) = ''ignore''"
| "Label (user _) = ''user''"
| "Label (reference _ _ _ _ _ _) = ''reference''"
| "Label (whitespace _) = ''whitespace''"

text \<open>
  The parse context. The field \<open>s\<close> of the Go struct is \<open>input\<close> here. The two tracer
  callbacks are left out: they are observers that are handed the frame and never the
  context, and \<open>parse\<close> below is \<open>parseCore\<close> between the two calls.
\<close>

record "context" =
  input :: string
  errorPos :: int
  messagePos :: int
  message :: string
  svStack :: "Values list"
  argsStack :: "operator list list"
  inToken :: bool
  whitespaceOpe :: "operator option"
  inWhitespace :: bool
  wordOpe :: "operator option"

text \<open>
  The state of one \<open>literalString\<close> node: the \<open>sync.Once\<close> has not run (\<open>isWord\<close> is
  false), it is running its function, or it is done and \<open>isWord\<close> holds the value.
\<close>

datatype wordMemo = Uninit | Initialising | IsWord bool

type_synonym heap = "nat \<Rightarrow> wordMemo"

text \<open>
  Modelled from the spec: the type \<open>Rule\<close> is not in ope.go. The fields are those of the
  data model (section 3 of the specification); an action computes a value from the rule's
  frame and the user data.
\<close>

record Rule =
  Name :: string
  Parameters :: "string list option"
  Ope :: operator
  Action :: "(Values \<Rightarrow> any \<Rightarrow> any) option"
  WhitespaceOpe :: "operator option"
  WordOpe :: "operator option"

text \<open>
  What ope.go uses and does not define, taken as parameters: \<open>lineInfo\<close> (line and column of
  a position), the rule table that the pointers of references point into, and the
  substitution that the \<open>findReference\<close> visitor computes for one argument of a macro call
  from the caller's arguments and the macro's parameter names.
\<close>

record env =
  lineInfo :: "string \<Rightarrow> int \<Rightarrow> int \<times> int"
  rules :: "nat \<Rightarrow> Rule option"
  findReference :: "operator list \<Rightarrow> string list \<Rightarrow> operator \<Rightarrow> operator"

type_synonym result = "int \<times> error option \<times> Values \<times> context \<times> heap"

type_synonym evaluator =
  "operator \<Rightarrow> string \<Rightarrow> int \<Rightarrow> Values \<Rightarrow> context \<Rightarrow> heap \<Rightarrow> any \<Rightarrow> result exec"

section \<open>Context operations\<close>

definition setErrorPos :: "int \<Rightarrow> context \<Rightarrow> context" where
  "setErrorPos p c = (if errorPos c < p then c\<lparr>errorPos := p\<rparr> else c)"

text \<open>
  \<open>push\<close> appends a frame \<open>Values{SS: c.s}\<close> and returns a pointer to it. The model hands
  the frame to the callee by value and takes it back from the callee's result; the slot
  on the stack keeps the pushed frame until \<open>pop\<close> drops it. Nothing in ope.go reads a
  stack slot except through the pointer \<open>push\<close> returned.
\<close>

definition newValues :: "string \<Rightarrow> Values" where
  "newValues ss = \<lparr>SS = ss, Vs = [], Pos = 0, S = [], Choice = 0, Ts = []\<rparr>"

definition push :: "context \<Rightarrow> Values \<times> context" where
  "push c = (newValues (input c), c\<lparr>svStack := svStack c @ [newValues (input c)]\<rparr>)"

text \<open>\<open>c.svStack[:len(c.svStack)-1]\<close> panics on an empty stack.\<close>

definition pop :: "context \<Rightarrow> context option" where
  "pop c = (if svStack c = [] then None else Some (c\<lparr>svStack := butlast (svStack c)\<rparr>))"

definition pushArgs :: "operator list \<Rightarrow> context \<Rightarrow> context" where
  "pushArgs as c = c\<lparr>argsStack := argsStack c @ [as]\<rparr>"

definition popArgs :: "context \<Rightarrow> context option" where
  "popArgs c = (if argsStack c = [] then None else Some (c\<lparr>argsStack := butlast (argsStack c)\<rparr>))"

text \<open>\<open>topArg\<close> returns nil, a slice of length 0, on an empty stack.\<close>

definition topArg :: "context \<Rightarrow> operator list" where
  "topArg c = (if length (argsStack c) = 0 then [] else argsStack c ! (length (argsStack c) - 1))"

text \<open>The context literal \<open>&context{s: s}\<close>: every other field has its zero value.\<close>

definition newContext :: "string \<Rightarrow> context" where
  "newContext s = \<lparr>input = s, errorPos = 0, messagePos = 0, message = [], svStack = [],
     argsStack = [], inToken = False, whitespaceOpe = None, inWhitespace = False,
     wordOpe = None\<rparr>"

definition Token_of :: "Values \<Rightarrow> string" where
  "Token_of v = (if length (Ts v) > 0 then TokS (Ts v ! 0) else S v)"

text \<open>Indexing \<open>s[i]\<close> and slicing \<open>s[lo:hi]\<close> of a Go string; \<open>None\<close> is the runtime panic.\<close>

definition byteAt :: "string \<Rightarrow> int \<Rightarrow> char option" where
  "byteAt s i = (if 0 \<le> i \<and> i < int (length s) then Some (s ! nat i) else None)"

definition slice :: "string \<Rightarrow> int \<Rightarrow> int \<Rightarrow> string option" where
  "slice s lo hi = (if 0 \<le> lo \<and> lo \<le> hi \<and> hi \<le> int (length s)
     then Some (take (nat hi - nat lo) (drop (nat lo) s)) else None)"

definition mkOperatorError :: "env \<Rightarrow> string list \<Rightarrow> string \<Rightarrow> int \<Rightarrow> int \<Rightarrow> error" where
  "mkOperatorError E expected s p len =
     (case lineInfo E s p of (line, col) \<Rightarrow> OperatorError expected s line col len)"

section \<open>The operators\<close>

text \<open>
  Every \<open>parseCore\<close> takes the evaluator \<open>rec\<close> that it calls for \<open>ope.parse\<close> on a child.
  The frame \<open>v\<close>, the context \<open>c\<close> and the heap \<open>h\<close> are passed in and returned updated.
  Go's \<open>int\<close> is modelled by \<open>int\<close> without wrap-around.
\<close>

subsection \<open>Sequence\<close>

fun sequence_loop :: "evaluator \<Rightarrow> operator list \<Rightarrow> string \<Rightarrow> int \<Rightarrow> int \<Rightarrow> Values \<Rightarrow>
    context \<Rightarrow> heap \<Rightarrow> any \<Rightarrow> result exec" where
  "sequence_loop rec [] s p l v c h d = Return (l, None, v, c, h)"
| "sequence_loop rec (ope # opes) s p l v c h d =
     andThen (rec ope s (p + l) v c h d) (\<lambda>(chl, err, v1, c1, h1).
       if err \<noteq> None then Return (0, err, v1, c1, h1)
       else sequence_loop rec opes s p (l + chl) v1 c1 h1 d)"

definition sequence_parseCore :: "evaluator \<Rightarrow> operator list \<Rightarrow> string \<Rightarrow> int \<Rightarrow> Values \<Rightarrow>
    context \<Rightarrow> heap \<Rightarrow> any \<Rightarrow> result exec" where
  "sequence_parseCore rec opes s p v c h d = sequence_loop rec opes s p 0 v c h d"

subsection \<open>Prioritized choice\<close>

text \<open>
  One alternative of the loop body: \<open>chv := c.push()\<close>, \<open>ope.parse(s, p, chv, c, d)\<close>,
  \<open>c.pop()\<close>. The result holds the child frame in place of a frame of the caller.
\<close>

definition inFreshFrame :: "evaluator \<Rightarrow> operator \<Rightarrow> string \<Rightarrow> int \<Rightarrow> context \<Rightarrow> heap \<Rightarrow> any \<Rightarrow>
    result exec" where
  "inFreshFrame rec ope s p c h d =
     (case push c of (chv, c0) \<Rightarrow>
        andThen (rec ope s p chv c0 h d) (\<lambda>(l, e, chv1, c1, h1).
          case pop c1 of None \<Rightarrow> Panic | Some c2 \<Rightarrow> Return (l, e, chv1, c2, h1)))"

fun prioritizedChoice_loop :: "evaluator \<Rightarrow> operator list \<Rightarrow> int \<Rightarrow> error list \<Rightarrow> string \<Rightarrow> int \<Rightarrow>
    Values \<Rightarrow> context \<Rightarrow> heap \<Rightarrow> any \<Rightarrow> result exec" where
  "prioritizedChoice_loop rec [] i errs s p v c h d =
     Return (0, Some (SequenceError errs), v, c, h)"
| "prioritizedChoice_loop rec (ope # opes) i errs s p v c h d =
     andThen (inFreshFrame rec ope s p c h d) (\<lambda>(l, e, chv, c1, h1).
       case e of
         None \<Rightarrow> Return (l, None,
           v\<lparr>Vs := Vs v @ Vs chv, Pos := Pos chv, S := S chv, Choice := i,
              Ts := Ts v @ Ts chv\<rparr>, c1, h1)
       | Some e' \<Rightarrow> prioritizedChoice_loop rec opes (i + 1) (errs @ [e']) s p v c1 h1 d)"

definition prioritizedChoice_parseCore :: "evaluator \<Rightarrow> operator list \<Rightarrow> string \<Rightarrow> int \<Rightarrow> Values \<Rightarrow>
    context \<Rightarrow> heap \<Rightarrow> any \<Rightarrow> result exec" where
  "prioritizedChoice_parseCore rec opes s p v c h d =
     prioritizedChoice_loop rec opes 0 [] s p v c h d"

subsection \<open>Repetition\<close>

text \<open>
  The loops \<open>for p+l < len(s)\<close> of \<open>zeroOrMore\<close> and \<open>oneOrMore\<close>. The first argument after
  the evaluator bounds the number of iterations still allowed; when it is used up and the
  loop condition still holds, the loop has not returned.
\<close>

fun zeroOrMore_loop :: "evaluator \<Rightarrow> nat \<Rightarrow> operator \<Rightarrow> string \<Rightarrow> int \<Rightarrow> int \<Rightarrow> int \<Rightarrow> Values \<Rightarrow>
    context \<Rightarrow> heap \<Rightarrow> any \<Rightarrow> result exec" where
  "zeroOrMore_loop rec 0 ope s p saveErrorPos l v c h d =
     (if p + l < int (length s) then Diverged else Return (l, None, v, c, h))"
| "zeroOrMore_loop rec (Suc k) ope s p saveErrorPos l v c h d =
     (if p + l < int (length s) then
        (let saveVs = Vs v; saveTs = Ts v in
         andThen (rec ope s (p + l) v c h d) (\<lambda>(chl, e, v1, c1, h1).
           if e \<noteq> None then
             Return (l, None, v1\<lparr>Vs := saveVs, Ts := saveTs\<rparr>,
               c1\<lparr>errorPos := saveErrorPos\<rparr>, h1)
           else zeroOrMore_loop rec k ope s p saveErrorPos (l + chl) v1 c1 h1 d))
      else Return (l, None, v, c, h))"

definition zeroOrMore_parseCore :: "evaluator \<Rightarrow> nat \<Rightarrow> operator \<Rightarrow> string \<Rightarrow> int \<Rightarrow> Values \<Rightarrow>
    context \<Rightarrow> heap \<Rightarrow> any \<Rightarrow> result exec" where
  "zeroOrMore_parseCore rec k ope s p v c h d =
     (let saveErrorPos = errorPos c in zeroOrMore_loop rec k ope s p saveErrorPos 0 v c h d)"

fun oneOrMore_loop :: "evaluator \<Rightarrow> nat \<Rightarrow> operator \<Rightarrow> string \<Rightarrow> int \<Rightarrow> int \<Rightarrow> int \<Rightarrow> Values \<Rightarrow>
    context \<Rightarrow> heap \<Rightarrow> any \<Rightarrow> result exec" where
  "oneOrMore_loop rec 0 ope s p saveErrorPos l v c h d =
     (if p + l < int (length s) then Diverged else Return (l, None, v, c, h))"
| "oneOrMore_loop rec (Suc k) ope s p saveErrorPos l v c h d =
     (if p + l < int (length s) then
        (let saveVs = Vs v; saveTs = Ts v in
         andThen (rec ope s (p + l) v c h d) (\<lambda>(chl, e, v1, c1, h1).
           if e \<noteq> None then
             Return (l, None, v1\<lparr>Vs := saveVs, Ts := saveTs\<rparr>,
               c1\<lparr>errorPos := saveErrorPos\<rparr>, h1)
           else oneOrMore_loop rec k ope s p saveErrorPos (l + chl) v1 c1 h1 d))
      else Return (l, None, v, c, h))"

definition oneOrMore_parseCore :: "evaluator \<Rightarrow> nat \<Rightarrow> operator \<Rightarrow> string \<Rightarrow> int \<Rightarrow> Values \<Rightarrow>
    context \<Rightarrow> heap \<Rightarrow> any \<Rightarrow> result exec" where
  "oneOrMore_parseCore rec k ope s p v c h d =
     andThen (rec ope s p v c h d) (\<lambda>(l, err, v1, c1, h1).
       if err \<noteq> None then Return (l, err, v1, c1, h1)
       else (let saveErrorPos = errorPos c1 in
             oneOrMore_loop rec k ope s p saveErrorPos l v1 c1 h1 d))"

subsection \<open>Option and the predicates\<close>

definition option_parseCore :: "evaluator \<Rightarrow> operator \<Rightarrow> string \<Rightarrow> int \<Rightarrow> Values \<Rightarrow>
    context \<Rightarrow> heap \<Rightarrow> any \<Rightarrow> result exec" where
  "option_parseCore rec ope s p v c h d =
     (let saveErrorPos = errorPos c; saveVs = Vs v; saveTs = Ts v in
      andThen (rec ope s p v c h d) (\<lambda>(l, err, v1, c1, h1).
        if err \<noteq> None then
          Return (0, None, v1\<lparr>Vs := saveVs, Ts := saveTs\<rparr>, c1\<lparr>errorPos := saveErrorPos\<rparr>, h1)
        else Return (l, None, v1, c1, h1)))"

definition andPredicate_parseCore :: "evaluator \<Rightarrow> operator \<Rightarrow> string \<Rightarrow> int \<Rightarrow> Values \<Rightarrow>
    context \<Rightarrow> heap \<Rightarrow> any \<Rightarrow> result exec" where
  "andPredicate_parseCore rec ope s p v c h d =
     andThen (inFreshFrame rec ope s p c h d) (\<lambda>(chl, err, chv, c1, h1).
       Return (0, err, v, c1, h1))"

definition notPredicate_parseCore :: "env \<Rightarrow> evaluator \<Rightarrow> operator \<Rightarrow> string \<Rightarrow> int \<Rightarrow> Values \<Rightarrow>
    context \<Rightarrow> heap \<Rightarrow> any \<Rightarrow> result exec" where
  "notPredicate_parseCore E rec ope s p v c h d =
     (let saveErrorPos = errorPos c in
      andThen (inFreshFrame rec ope s p c h d) (\<lambda>(chl, e, chv, c1, h1).
        if e = None then
          Return (0, Some (mkOperatorError E [''Not '' @ Label ope] s p chl), v,
            setErrorPos p c1, h1)
        else Return (0, None, v, c1\<lparr>errorPos := saveErrorPos\<rparr>, h1)))"

subsection \<open>Literal string\<close>

text \<open>
  The byte comparison \<open>for ; l < len(o.lit); l++\<close>, on the part of the literal from index
  \<open>l\<close> on: \<open>Return False\<close> is the mismatch branch, \<open>Return True\<close> the end of the loop.
\<close>

fun literalString_loop :: "string \<Rightarrow> int \<Rightarrow> string \<Rightarrow> int \<Rightarrow> bool exec" where
  "literalString_loop s p [] l = Return True"
| "literalString_loop s p (x # xs) l =
     (if p + l = int (length s) then Return False
      else (case byteAt s (p + l) of
              None \<Rightarrow> Panic
            | Some b \<Rightarrow> if b \<noteq> x then Return False else literalString_loop s p xs (l + 1)))"

text \<open>
  \<open>o.initIsWord.Do(...)\<close>: the function runs when the \<open>sync.Once\<close> of the node has not
  run before, on the literal itself, with a new frame, a new context and nil user data.
  A call of \<open>Do\<close> from inside the function of the same \<open>Once\<close> never returns.
\<close>

definition initIsWord :: "evaluator \<Rightarrow> string \<Rightarrow> nat \<Rightarrow> string \<Rightarrow> context \<Rightarrow> heap \<Rightarrow> heap exec" where
  "initIsWord rec li a s c h =
     (case h a of
        IsWord b \<Rightarrow> Return h
      | Initialising \<Rightarrow> Diverged
      | Uninit \<Rightarrow>
          (case wordOpe c of
             None \<Rightarrow> Return (h(a := IsWord False))
           | Some w \<Rightarrow>
               andThen (rec w li 0 (newValues []) (newContext s) (h(a := Initialising)) ANil)
                 (\<lambda>(l0, err, v0, c0, h0). Return (h0(a := IsWord (err = None))))))"

definition isWord :: "heap \<Rightarrow> nat \<Rightarrow> bool" where
  "isWord h a = (case h a of IsWord b \<Rightarrow> b | _ \<Rightarrow> False)"

text \<open>
  The word check \<open>Npd(c.wordOpe).parse(s, p+l, v, &context{s: s}, nil)\<close>: the context the
  predicate ran in is dropped, the caller continues with its own \<open>c\<close>.
\<close>

definition wordCheck :: "evaluator \<Rightarrow> string \<Rightarrow> int \<Rightarrow> Values \<Rightarrow> context \<Rightarrow> heap \<Rightarrow> result exec" where
  "wordCheck rec s q v c h =
     (case wordOpe c of
        None \<Rightarrow> Panic
      | Some w \<Rightarrow>
          andThen (rec (Npd w) s q v (newContext s) h ANil)
            (\<lambda>(len, err, v1, cf, h1). Return (len, err, v1, c, h1)))"

definition skipWhitespace :: "evaluator \<Rightarrow> string \<Rightarrow> int \<Rightarrow> int \<Rightarrow> Values \<Rightarrow> context \<Rightarrow> heap \<Rightarrow> any \<Rightarrow>
    result exec" where
  "skipWhitespace rec s p l v c h d =
     (case whitespaceOpe c of
        None \<Rightarrow> Return (l, None, v, c, h)
      | Some ws \<Rightarrow>
          andThen (rec ws s (p + l) v c h d) (\<lambda>(len, err, v1, c1, h1).
            if err \<noteq> None then Return (0, err, v1, c1, h1)
            else Return (l + len, None, v1, c1, h1)))"

definition literalString_parseCore :: "env \<Rightarrow> evaluator \<Rightarrow> string \<Rightarrow> nat \<Rightarrow> string \<Rightarrow> int \<Rightarrow>
    Values \<Rightarrow> context \<Rightarrow> heap \<Rightarrow> any \<Rightarrow> result exec" where
  "literalString_parseCore E rec li a s p v c h d =
     andThen (literalString_loop s p li 0) (\<lambda>matched.
       if \<not> matched then
         Return (0, Some (mkOperatorError E [li] s p (int (length li))), v, setErrorPos p c, h)
       else
         (let l = int (length li) in
          andThen (initIsWord rec li a s c h) (\<lambda>h1.
            andThen
              (if isWord h1 a then wordCheck rec s (p + l) v c h1
               else Return (0, None, v, c, h1))
              (\<lambda>(len, err, v2, c2, h2).
                 if err \<noteq> None then Return (0, err, v2, c2, h2)
                 else if inToken c2 = False then skipWhitespace rec s p (l + len) v2 c2 h2 d
                 else Return (l + len, None, v2, c2, h2)))))"

subsection \<open>Character class and any character\<close>

text \<open>The scan \<open>for i < len(o.chars)\<close>; bytes are compared as unsigned numbers.\<close>

function characterClass_loop :: "string \<Rightarrow> char \<Rightarrow> nat \<Rightarrow> bool" where
  "characterClass_loop chars ch i =
     (if i < length chars then
        (if i + 2 < length chars \<and> chars ! (i + 1) = CHR ''-'' then
           (if (of_char (chars ! i) :: nat) \<le> of_char ch \<and>
               (of_char ch :: nat) \<le> of_char (chars ! (i + 2))
            then True else characterClass_loop chars ch (i + 3))
         else
           (if chars ! i = ch then True else characterClass_loop chars ch (i + 1)))
      else False)"
  by pat_completeness auto
termination
  by (relation "measure (\<lambda>(chars, ch, i). length chars - i)") auto

declare characterClass_loop.simps [simp del]

definition characterClass_parseCore :: "env \<Rightarrow> string \<Rightarrow> string \<Rightarrow> int \<Rightarrow> Values \<Rightarrow> context \<Rightarrow>
    heap \<Rightarrow> any \<Rightarrow> result exec" where
  "characterClass_parseCore E chars s p v c h d =
     (if int (length s) - p < 1 then
        Return (0, Some (mkOperatorError E [chars] s p 0), v, setErrorPos p c, h)
      else
        (case byteAt s p of
           None \<Rightarrow> Panic
         | Some ch \<Rightarrow>
             if characterClass_loop chars ch 0 then Return (1, None, v, c, h)
             else Return (0, Some (mkOperatorError E [chars] s p 1), v, setErrorPos p c, h)))"

definition anyCharacter_parseCore :: "env \<Rightarrow> string \<Rightarrow> int \<Rightarrow> Values \<Rightarrow> context \<Rightarrow>
    heap \<Rightarrow> any \<Rightarrow> result exec" where
  "anyCharacter_parseCore E s p v c h d =
     (if int (length s) - p < 1 then
        Return (0, Some (mkOperatorError E [''Anything''] s p 0), v, setErrorPos p c, h)
      else Return (1, None, v, c, h))"

subsection \<open>Token boundary, ignore, user, whitespace\<close>

definition tokenBoundary_parseCore :: "evaluator \<Rightarrow> operator \<Rightarrow> string \<Rightarrow> int \<Rightarrow> Values \<Rightarrow>
    context \<Rightarrow> heap \<Rightarrow> any \<Rightarrow> result exec" where
  "tokenBoundary_parseCore rec ope s p v c h d =
     andThen (rec ope s p v (c\<lparr>inToken := True\<rparr>) h d) (\<lambda>(l, err, v1, c1, h1).
       (let c2 = c1\<lparr>inToken := False\<rparr> in
        if err = None then
          (case slice s p (p + l) of
             None \<Rightarrow> Panic
           | Some tok \<Rightarrow>
               skipWhitespace rec s p l (v1\<lparr>Ts := Ts v1 @ [Token p tok]\<rparr>) c2 h1 d)
        else Return (l, err, v1, c2, h1)))"

definition ignore_parseCore :: "evaluator \<Rightarrow> operator \<Rightarrow> string \<Rightarrow> int \<Rightarrow> Values \<Rightarrow>
    context \<Rightarrow> heap \<Rightarrow> any \<Rightarrow> result exec" where
  "ignore_parseCore rec ope s p v c h d =
     andThen (inFreshFrame rec ope s p c h d) (\<lambda>(l, err, chv, c1, h1).
       Return (l, err, v, c1, h1))"

definition user_parseCore ::
  "(string \<Rightarrow> int \<Rightarrow> Values \<Rightarrow> any \<Rightarrow> (int \<times> error option \<times> Values) exec) \<Rightarrow> string \<Rightarrow> int \<Rightarrow>
    Values \<Rightarrow> context \<Rightarrow> heap \<Rightarrow> any \<Rightarrow> result exec" where
  "user_parseCore fn s p v c h d =
     andThen (fn s p v d) (\<lambda>(l, err, v1). Return (l, err, v1, c, h))"

definition whitespace_parseCore :: "evaluator \<Rightarrow> operator \<Rightarrow> string \<Rightarrow> int \<Rightarrow> Values \<Rightarrow>
    context \<Rightarrow> heap \<Rightarrow> any \<Rightarrow> result exec" where
  "whitespace_parseCore rec ope s p v c h d =
     (if inWhitespace c then Return (0, None, v, c, h)
      else
        andThen (rec ope s p v (c\<lparr>inWhitespace := True\<rparr>) h d) (\<lambda>(l, err, v1, c1, h1).
          Return (l, err, v1, c1\<lparr>inWhitespace := False\<rparr>, h1)))"

subsection \<open>Reference\<close>

text \<open>
  Modelled from the spec: \<open>Rule.parse\<close>, which \<open>reference.parseCore\<close> calls, is not in
  ope.go. Section 4.16 of the specification: push a fresh frame, evaluate the rule's root
  operator on it, on success place the value of the action onto the parent frame's \<open>Vs\<close>
  (without an action, the first child value if \<open>Vs\<close> has exactly one element, else the
  whole list), pop the frame, propagate success or failure. Installing the whitespace
  operator belongs to the call of the start rule (section 3: it is only meaningful there),
  not to the call of a rule through a reference.
\<close>

definition Rule_parse :: "evaluator \<Rightarrow> Rule \<Rightarrow> string \<Rightarrow> int \<Rightarrow> Values \<Rightarrow> context \<Rightarrow> heap \<Rightarrow> any \<Rightarrow>
    result exec" where
  "Rule_parse rec r s p v c h d =
     (case push c of (chv, c0) \<Rightarrow>
        andThen (rec (Ope r) s p chv c0 h d) (\<lambda>(l, err, chv1, c1, h1).
          (let v1 = (if err = None then
                       v\<lparr>Vs := Vs v @
                          [case Action r of
                             Some f \<Rightarrow> f chv1 d
                           | None \<Rightarrow> if length (Vs chv1) = 1 then Vs chv1 ! 0
                                     else AList (Vs chv1)]\<rparr>
                     else v) in
           case pop c1 of None \<Rightarrow> Panic | Some c2 \<Rightarrow> Return (l, err, v1, c2, h1))))"

text \<open>
  A non-nil rule pointer of a Go program points to a rule; an address without a rule in
  the table is treated as a panic. \<open>args[o.iarg]\<close> panics outside the slice.
\<close>

definition reference_parseCore :: "env \<Rightarrow> evaluator \<Rightarrow> int \<Rightarrow> operator list \<Rightarrow> nat option \<Rightarrow>
    string \<Rightarrow> int \<Rightarrow> Values \<Rightarrow> context \<Rightarrow> heap \<Rightarrow> any \<Rightarrow> result exec" where
  "reference_parseCore E rec ia as ru s p v c h d =
     (case ru of
        Some ra \<Rightarrow>
          (case rules E ra of
             None \<Rightarrow> Panic
           | Some r \<Rightarrow>
               (case Parameters r of
                  None \<Rightarrow> Rule_parse rec r s p v c h d
                | Some params \<Rightarrow>
                    (let args' = map (findReference E (topArg c) params) as;
                         c1 = pushArgs args' c in
                     andThen (Rule_parse rec r s p v c1 h d) (\<lambda>(l, err, v1, c2, h1).
                       case popArgs c2 of
                         None \<Rightarrow> Panic
                       | Some c3 \<Rightarrow> Return (l, err, v1, c3, h1)))))
      | None \<Rightarrow>
          (let args' = topArg c in
           if 0 \<le> ia \<and> ia < int (length args') then rec (args' ! nat ia) s p v c h d
           else Panic))"

section \<open>Dispatch\<close>

text \<open>
  \<open>parseCore\<close> is the method dispatch of the interface \<open>operator\<close>. \<open>k\<close> bounds the
  iterations of the repetition loops.
\<close>

definition parseCore :: "env \<Rightarrow> evaluator \<Rightarrow> nat \<Rightarrow> evaluator" where
  "parseCore E rec k ope s p v c h d =
     (case ope of
        sequence opes \<Rightarrow> sequence_parseCore rec opes s p v c h d
      | prioritizedChoice opes \<Rightarrow> prioritizedChoice_parseCore rec opes s p v c h d
      | zeroOrMore x \<Rightarrow> zeroOrMore_parseCore rec k x s p v c h d
      | oneOrMore x \<Rightarrow> oneOrMore_parseCore rec k x s p v c h d
      | option x \<Rightarrow> option_parseCore rec x s p v c h d
      | andPredicate x \<Rightarrow> andPredicate_parseCore rec x s p v c h d
      | notPredicate x \<Rightarrow> notPredicate_parseCore E rec x s p v c h d
      | literalString li a \<Rightarrow> literalString_parseCore E rec li a s p v c h d
      | characterClass chars \<Rightarrow> characterClass_parseCore E chars s p v c h d
      | anyCharacter \<Rightarrow> anyCharacter_parseCore E s p v c h d
      | tokenBoundary x \<Rightarrow> tokenBoundary_parseCore rec x s p v c h d
      | ignore x \<Rightarrow> ignore_parseCore rec x s p v c h d
      | user fn \<Rightarrow> user_parseCore fn s p v c h d
      | reference nm ia as ias ps ru \<Rightarrow> reference_parseCore E rec ia as ru s p v c h d
      | whitespace x \<Rightarrow> whitespace_parseCore rec x s p v c h d)"

text \<open>
  \<open>parse\<close>: every call of \<open>ope.parse\<close> in ope.go goes through it. The fuel bounds the depth
  of nested calls and the iterations of each repetition loop; \<open>Diverged\<close> at every fuel is
  a run that does not return.
\<close>

fun parse :: "env \<Rightarrow> nat \<Rightarrow> evaluator" where
  "parse E 0 ope s p v c h d = Diverged"
| "parse E (Suc n) ope s p v c h d = parseCore E (parse E n) n ope s p v c h d"

section \<open>Definitions used to state the properties\<close>

text \<open>
  Membership in a character class as the specification words it: the class string is read
  from the left; a character followed by a hyphen and a further character is an inclusive
  range, any other character (a hyphen without both neighbours included) stands for
  itself.
\<close>

fun inClass :: "string \<Rightarrow> char \<Rightarrow> bool" where
  "inClass (a # m # b # rest) ch =
     (if m = CHR ''-'' then
        ((of_char a :: nat) \<le> of_char ch \<and> (of_char ch :: nat) \<le> of_char b) \<or> inClass rest ch
      else a = ch \<or> inClass (m # b # rest) ch)"
| "inClass (a # rest) ch = (a = ch \<or> inClass rest ch)"
| "inClass [] ch = False"

text \<open>Length and error of a run that returned.\<close>

definition outcome :: "result exec \<Rightarrow> (int \<times> error option) option" where
  "outcome r = (case r of Return (l, e, v, c, h) \<Rightarrow> Some (l, e) | _ \<Rightarrow> None)"

text \<open>
  An environment and a heap for worked examples: every position is reported on line 1,
  there are no rules, the substitution leaves arguments as they are, and no literal has
  been classified yet.
\<close>

definition exampleEnv :: env where
  "exampleEnv = \<lparr>lineInfo = (\<lambda>s p. (1, p + 1)), rules = (\<lambda>_. None),
     findReference = (\<lambda>_ _ x. x)\<rparr>"

definition emptyHeap :: heap where
  "emptyHeap = (\<lambda>_. Uninit)"

text \<open>
  What an evaluation leaves alone in the context: everything but the error position, and
  the token flag, which it may clear and never sets.
\<close>

definition sameScope :: "context \<Rightarrow> context \<Rightarrow> bool" where
  "sameScope c c' \<longleftrightarrow>
     input c' = input c \<and> svStack c' = svStack c \<and> argsStack c' = argsStack c \<and>
     whitespaceOpe c' = whitespaceOpe c \<and> wordOpe c' = wordOpe c \<and>
     inWhitespace c' = inWhitespace c \<and> messagePos c' = messagePos c \<and>
     message c' = message c \<and> (inToken c' \<longrightarrow> inToken c)"

definition scopeKeeping :: "evaluator \<Rightarrow> bool" where
  "scopeKeeping rec \<longleftrightarrow>
     (\<forall>ope s p v c h d l e v' c' h'.
        rec ope s p v c h d = Return (l, e, v', c', h') \<longrightarrow> sameScope c c')"

text \<open>
  One alternative as the specification words it: a fresh frame (only \<open>SS\<close> set) is pushed
  onto the stack of frames, the alternative is evaluated on that frame, and the stack is
  popped; the result carries the child frame.
\<close>

definition alternativeRun :: "evaluator \<Rightarrow> operator \<Rightarrow> string \<Rightarrow> int \<Rightarrow> context \<Rightarrow> heap \<Rightarrow> any \<Rightarrow>
    result exec" where
  "alternativeRun rec ope s p c h d =
     (case rec ope s p \<lparr>SS = input c, Vs = [], Pos = 0, S = [], Choice = 0, Ts = []\<rparr>
             (c\<lparr>svStack := svStack c @
                [\<lparr>SS = input c, Vs = [], Pos = 0, S = [], Choice = 0, Ts = []\<rparr>]\<rparr>) h d of
        Return (l, e, chv, c1, h1) \<Rightarrow>
          if svStack c1 = [] then Panic
          else Return (l, e, chv, c1\<lparr>svStack := butlast (svStack c1)\<rparr>, h1)
      | Panic \<Rightarrow> Panic
      | Diverged \<Rightarrow> Diverged)"

text \<open>
  The alternatives of a list all fail, tried from the left, each in a fresh frame: their
  errors in order, and the context and heap after the last of them.
\<close>

fun failedAlternatives :: "evaluator \<Rightarrow> operator list \<Rightarrow> string \<Rightarrow> int \<Rightarrow> context \<Rightarrow> heap \<Rightarrow> any \<Rightarrow>
    (error list \<times> context \<times> heap) option" where
  "failedAlternatives rec [] s p c h d = Some ([], c, h)"
| "failedAlternatives rec (ope # opes) s p c h d =
     (case alternativeRun rec ope s p c h d of
        Return (l, Some e, chv, c1, h1) \<Rightarrow>
          (case failedAlternatives rec opes s p c1 h1 d of
             Some (es, c2, h2) \<Rightarrow> Some (e # es, c2, h2)
           | None \<Rightarrow> None)
      | _ \<Rightarrow> None)"

text \<open>
  A user function for worked examples: it consumes nothing, appends the value \<open>x\<close> to the
  frame it is handed and sets the frame's \<open>Pos\<close> and \<open>S\<close>.
\<close>

definition capture :: "any \<Rightarrow> int \<Rightarrow> string \<Rightarrow> string \<Rightarrow> int \<Rightarrow> Values \<Rightarrow> any \<Rightarrow>
    (int \<times> error option \<times> Values) exec" where
  "capture x q t s p v d = Return (0, None, v\<lparr>Vs := Vs v @ [x], Pos := q, S := t\<rparr>)"

text \<open>The parent frame after the alternative with ordinal \<open>k\<close> succeeded on the frame \<open>chv\<close>.\<close>

definition spliced :: "Values \<Rightarrow> Values \<Rightarrow> int \<Rightarrow> Values" where
  "spliced v chv k = v\<lparr>Vs := Vs v @ Vs chv, Pos := Pos chv, S := S chv, Choice := k,
     Ts := Ts v @ Ts chv\<rparr>"

text \<open>Frame and context of a run that returned.\<close>

definition frameOf :: "result exec \<Rightarrow> Values option" where
  "frameOf r = (case r of Return (l, e, v, c, h) \<Rightarrow> Some v | _ \<Rightarrow> None)"

definition contextOf :: "result exec \<Rightarrow> context option" where
  "contextOf r = (case r of Return (l, e, v, c, h) \<Rightarrow> Some c | _ \<Rightarrow> None)"

text \<open>
  The children of a list all succeed, evaluated from the left on the current frame, the
  length accumulating: the length, frame, context and heap after the last of them.
\<close>

fun succeededChildren :: "evaluator \<Rightarrow> operator list \<Rightarrow> string \<Rightarrow> int \<Rightarrow> int \<Rightarrow> Values \<Rightarrow> context \<Rightarrow>
    heap \<Rightarrow> any \<Rightarrow> (int \<times> Values \<times> context \<times> heap) option" where
  "succeededChildren rec [] s p l v c h d = Some (l, v, c, h)"
| "succeededChildren rec (ope # opes) s p l v c h d =
     (case rec ope s (p + l) v c h d of
        Return (chl, None, v1, c1, h1) \<Rightarrow> succeededChildren rec opes s p (l + chl) v1 c1 h1 d
      | _ \<Rightarrow> None)"

text \<open>
  The state of a repetition loop after \<open>m\<close> iterations that each found the loop condition
  true and the child successful: the state immediately before iteration \<open>m + 1\<close>.
\<close>

fun afterIterations :: "evaluator \<Rightarrow> nat \<Rightarrow> operator \<Rightarrow> string \<Rightarrow> int \<Rightarrow> int \<Rightarrow> Values \<Rightarrow> context \<Rightarrow>
    heap \<Rightarrow> any \<Rightarrow> (int \<times> Values \<times> context \<times> heap) option" where
  "afterIterations rec 0 ope s p l v c h d = Some (l, v, c, h)"
| "afterIterations rec (Suc m) ope s p l v c h d =
     (if p + l < int (length s) then
        (case rec ope s (p + l) v c h d of
           Return (chl, None, v1, c1, h1) \<Rightarrow> afterIterations rec m ope s p (l + chl) v1 c1 h1 d
         | _ \<Rightarrow> None)
      else None)"

text \<open>
  More fuel: a run that has not returned may do anything with more fuel, any other run
  stays as it is.
\<close>

definition le_exec :: "'a exec \<Rightarrow> 'a exec \<Rightarrow> bool" where
  "le_exec r r' \<longleftrightarrow> r = Diverged \<or> r = r'"

definition le_eval :: "evaluator \<Rightarrow> evaluator \<Rightarrow> bool" where
  "le_eval f g \<longleftrightarrow> (\<forall>ope s p v c h d. le_exec (f ope s p v c h d) (g ope s p v c h d))"

text \<open>
  A choice for worked examples, on the input \<open>ab\<close>: the first alternative appends a value
  and a token to its frame and then fails, the second appends a value and a token and
  succeeds, the third is never reached. The parent frame already holds a value and a
  token.
\<close>

definition exampleAlternatives :: "operator list" where
  "exampleAlternatives =
     [Seq [user (capture (AStr ''lost'') 3 ''x''), Tok (literalString ''a'' 0), literalString ''x'' 1],
      Seq [user (capture (AStr ''won'') 5 ''ab''), Tok (literalString ''a'' 2), literalString ''b'' 3],
      Dot]"

definition exampleParent :: Values where
  "exampleParent = \<lparr>SS = ''ab'', Vs = [AInt 7], Pos = 0, S = [], Choice = 0, Ts = [Token 9 ''t'']\<rparr>"

text \<open>
  The hypotheses on the child of a repetition, relative to a set of loop states (\<open>I\<close> with
  the consumed length, \<open>J\<close> at a fixed position) that holds the states the loop gets to.
  \<open>progressing\<close>: in every state of \<open>I\<close> before the end of the input the child terminates,
  and every successful parse there consumes at least one byte and leads to a state of \<open>I\<close>.
  \<open>stalling\<close>: at position \<open>q\<close>, in every state of \<open>J\<close>, the child, when it returns,
  succeeds with zero bytes and leads to a state of \<open>J\<close>.
\<close>

definition progressing :: "env \<Rightarrow> operator \<Rightarrow> string \<Rightarrow> int \<Rightarrow> any \<Rightarrow>
    (int \<Rightarrow> Values \<Rightarrow> context \<Rightarrow> heap \<Rightarrow> bool) \<Rightarrow> bool" where
  "progressing E ope s p d I \<longleftrightarrow>
     (\<forall>l v c h. I l v c h \<and> p + l < int (length s) \<longrightarrow>
        (\<exists>n. parse E n ope s (p + l) v c h d \<noteq> Diverged) \<and>
        (\<forall>n chl v1 c1 h1. parse E n ope s (p + l) v c h d = Return (chl, None, v1, c1, h1) \<longrightarrow>
           1 \<le> chl \<and> I (l + chl) v1 c1 h1))"

definition stalling :: "env \<Rightarrow> operator \<Rightarrow> string \<Rightarrow> int \<Rightarrow> any \<Rightarrow>
    (Values \<Rightarrow> context \<Rightarrow> heap \<Rightarrow> bool) \<Rightarrow> bool" where
  "stalling E ope s q d J \<longleftrightarrow>
     (\<forall>n v c h. J v c h \<longrightarrow>
        parse E n ope s q v c h d = Diverged \<or>
        (\<exists>v1 c1 h1. parse E n ope s q v c h d = Return (0, None, v1, c1, h1) \<and> J v1 c1 h1))"

text \<open>
  A user function that depends on the frame: it succeeds with zero bytes on a frame
  without values, leaving a value, and fails on any other frame.
\<close>

definition succeedOnce :: "string \<Rightarrow> int \<Rightarrow> Values \<Rightarrow> any \<Rightarrow> (int \<times> error option \<times> Values) exec" where
  "succeedOnce s p v d =
     (if Vs v = [] then Return (0, None, v\<lparr>Vs := [ANil]\<rparr>)
      else Return (0, Some (OtherError ''done''), v))"

text \<open>
  States in which the literal node \<open>a\<close> runs no other operator: no word operator, no
  whitespace operator, and the node not classified as a word.
\<close>

definition plainState :: "nat \<Rightarrow> Values \<Rightarrow> context \<Rightarrow> heap \<Rightarrow> bool" where
  "plainState a v c h \<longleftrightarrow>
     wordOpe c = None \<and> whitespaceOpe c = None \<and> (h a = Uninit \<or> h a = IsWord False)"

section \<open>Basic lemmas\<close>

lemma andThen_simps [simp]:
  "andThen Diverged f = Diverged"
  "andThen Panic f = Panic"
  "andThen (Return r) f = f r"
  by (simp_all add: andThen_def)

lemma andThen_Return_iff:
  "andThen m f = Return r \<longleftrightarrow> (\<exists>x. m = Return x \<and> f x = Return r)"
  by (cases m) simp_all

section \<open>Character class\<close>

lemma drop3:
  "i + 2 < length chars \<Longrightarrow>
   drop i chars = chars ! i # chars ! (i + 1) # chars ! (i + 2) # drop (i + 3) chars"
proof -
  assume a: "i + 2 < length chars"
  have "drop i chars = chars ! i # drop (Suc i) chars"
    using a by (simp add: Cons_nth_drop_Suc)
  also have "drop (Suc i) chars = chars ! (Suc i) # drop (Suc (Suc i)) chars"
    using a by (simp add: Cons_nth_drop_Suc)
  also have "drop (Suc (Suc i)) chars = chars ! (Suc (Suc i)) # drop (Suc (Suc (Suc i))) chars"
    using a by (simp add: Cons_nth_drop_Suc)
  finally show ?thesis by (simp add: numeral_3_eq_3 numeral_2_eq_2)
qed

lemma inClass_no_hyphen:
  "xs \<noteq> [] \<Longrightarrow> \<not> (2 < length xs \<and> xs ! 1 = CHR ''-'') \<Longrightarrow>
   inClass xs ch = (hd xs = ch \<or> inClass (tl xs) ch)"
  by (cases xs; cases "tl xs"; cases "tl (tl xs)") auto

text \<open>The index scan of the code decides membership in the class as worded above.\<close>

lemma characterClass_loop_inClass:
  "i \<le> length chars \<Longrightarrow> characterClass_loop chars ch i = inClass (drop i chars) ch"
proof (induction chars ch i rule: characterClass_loop.induct)
  case (1 chars ch i)
  show ?case
  proof (cases "i < length chars")
    case False
    with 1(3) have "drop i chars = []" by simp
    with False show ?thesis by (subst characterClass_loop.simps) simp
  next
    case lt: True
    show ?thesis
    proof (cases "i + 2 < length chars \<and> chars ! (i + 1) = CHR ''-''")
      case True
      then have d: "drop i chars = chars ! i # CHR ''-'' # chars ! (i + 2) # drop (i + 3) chars"
        using drop3 [of i chars] by simp
      show ?thesis
        using 1(1) [OF lt True] True lt
        by (subst characterClass_loop.simps) (auto simp: d)
    next
      case False
      have ne: "drop i chars \<noteq> []" using lt by simp
      have nh: "\<not> (2 < length (drop i chars) \<and> drop i chars ! 1 = CHR ''-'')"
        using False lt by auto
      have "inClass (drop i chars) ch = (chars ! i = ch \<or> inClass (drop (i + 1) chars) ch)"
        using inClass_no_hyphen [OF ne nh, of ch] lt
        by (simp add: hd_drop_conv_nth drop_Suc tl_drop)
      then show ?thesis
        using 1(2) [OF lt False] False lt
        by (subst characterClass_loop.simps) auto
    qed
  qed
qed

text \<open>
  C5. A character class at a position \<open>p\<close> of the input: at the end of the input (and
  beyond it) it fails with an \<open>OperatorError\<close> whose \<open>Expected\<close> is the class string and
  whose \<open>Length\<close> is 0; before the end it succeeds with length 1 exactly when the byte
  \<open>s[p]\<close> is in the class (a single character or an inclusive range), and otherwise fails
  with the same error with \<open>Length\<close> 1. The frame and the heap are untouched; a failure
  moves the error position up to \<open>p\<close>. A negative \<open>p\<close>, which is no position of the input,
  makes \<open>s[p]\<close> panic.
\<close>

theorem characterClass_parse:
  "parse E (Suc n) (Cls chars) s p v c h d =
     (if int (length s) \<le> p then
        Return (0, Some (OperatorError [chars] s (fst (lineInfo E s p)) (snd (lineInfo E s p)) 0),
                v, setErrorPos p c, h)
      else if p < 0 then Panic
      else if inClass chars (s ! nat p) then Return (1, None, v, c, h)
      else
        Return (0, Some (OperatorError [chars] s (fst (lineInfo E s p)) (snd (lineInfo E s p)) 1),
                v, setErrorPos p c, h))"
  using characterClass_loop_inClass [of 0 chars "s ! nat p"]
  by (auto simp: Cls_def parseCore_def characterClass_parseCore_def byteAt_def
      mkOperatorError_def split: prod.splits)

text \<open>
  The examples of the specification: \<open>Cls("a-zA-Z0-9_")\<close> matches \<open>a\<close>, \<open>9\<close> and \<open>_\<close> with
  length 1 and fails on \<open>-\<close> and on the empty input.
\<close>

theorem characterClass_parse_witness:
  "outcome (parse exampleEnv (Suc 0) (Cls ''a-zA-Z0-9_'') ''a'' 0 (newValues []) (newContext ''a'')
      emptyHeap ANil) = Some (1, None) \<and>
   outcome (parse exampleEnv (Suc 0) (Cls ''a-zA-Z0-9_'') ''9'' 0 (newValues []) (newContext ''9'')
      emptyHeap ANil) = Some (1, None) \<and>
   outcome (parse exampleEnv (Suc 0) (Cls ''a-zA-Z0-9_'') ''_'' 0 (newValues []) (newContext ''_'')
      emptyHeap ANil) = Some (1, None) \<and>
   outcome (parse exampleEnv (Suc 0) (Cls ''a-zA-Z0-9_'') ''-'' 0 (newValues []) (newContext ''-'')
      emptyHeap ANil) = Some (0, Some (OperatorError [''a-zA-Z0-9_''] ''-'' 1 1 1)) \<and>
   outcome (parse exampleEnv (Suc 0) (Cls ''a-zA-Z0-9_'') [] 0 (newValues []) (newContext [])
      emptyHeap ANil) = Some (0, Some (OperatorError [''a-zA-Z0-9_''] [] 1 1 0))"
  using characterClass_parse [of exampleEnv 0 "''a-zA-Z0-9_''" "''a''" 0 "newValues []"
          "newContext ''a''" emptyHeap ANil]
        characterClass_parse [of exampleEnv 0 "''a-zA-Z0-9_''" "''9''" 0 "newValues []"
          "newContext ''9''" emptyHeap ANil]
        characterClass_parse [of exampleEnv 0 "''a-zA-Z0-9_''" "''_''" 0 "newValues []"
          "newContext ''_''" emptyHeap ANil]
        characterClass_parse [of exampleEnv 0 "''a-zA-Z0-9_''" "''-''" 0 "newValues []"
          "newContext ''-''" emptyHeap ANil]
        characterClass_parse [of exampleEnv 0 "''a-zA-Z0-9_''" "[]" 0 "newValues []"
          "newContext []" emptyHeap ANil]
  by (simp add: outcome_def exampleEnv_def)

section \<open>The token text of a frame\<close>

text \<open>
  C10. \<open>v.Token()\<close> is the text of the first captured token when the token list of the
  frame is not empty, and the matched substring \<open>v.S\<close> of the frame otherwise.
\<close>

theorem Token_first_or_S:
  "(Ts v \<noteq> [] \<longrightarrow> Token_of v = TokS (Ts v ! 0)) \<and> (Ts v = [] \<longrightarrow> Token_of v = S v)"
  by (simp add: Token_of_def)

theorem Token_first_or_S_witness:
  "Token_of \<lparr>SS = ''hello '', Vs = [], Pos = 0, S = ''hello '', Choice = 0,
      Ts = [Token 0 ''hello'', Token 5 '' '']\<rparr> = ''hello'' \<and>
   Token_of \<lparr>SS = ''hello '', Vs = [], Pos = 0, S = ''hello '', Choice = 0, Ts = []\<rparr> = ''hello ''"
  using Token_first_or_S [of "\<lparr>SS = ''hello '', Vs = [], Pos = 0, S = ''hello '', Choice = 0,
      Ts = [Token 0 ''hello'', Token 5 '' '']\<rparr>"]
    Token_first_or_S [of "\<lparr>SS = ''hello '', Vs = [], Pos = 0, S = ''hello '', Choice = 0, Ts = []\<rparr>"]
  by simp

section \<open>Reference to a macro parameter\<close>

text \<open>
  C8. A reference with a nil rule indexes \<open>c.topArg()\<close> at \<open>iarg\<close> without a check.
  \<open>topArg\<close> is nil on an empty argument stack, so the index is out of range there, as it
  is when \<open>iarg\<close> is outside the top argument list: the evaluation panics. With a non-empty
  argument stack and \<open>iarg\<close> inside the top list, the reference evaluates that argument in
  place.
\<close>

theorem reference_parameter:
  "(argsStack c = [] \<longrightarrow> topArg c = [] \<and>
      parse E (Suc n) (reference nm ia as ias ps None) s p v c h d = Panic) \<and>
   (argsStack c \<noteq> [] \<and> (ia < 0 \<or> int (length (last (argsStack c))) \<le> ia) \<longrightarrow>
      parse E (Suc n) (reference nm ia as ias ps None) s p v c h d = Panic) \<and>
   (argsStack c \<noteq> [] \<and> 0 \<le> ia \<and> ia < int (length (last (argsStack c))) \<longrightarrow>
      topArg c = last (argsStack c) \<and>
      parse E (Suc n) (reference nm ia as ias ps None) s p v c h d =
        parse E n (last (argsStack c) ! nat ia) s p v c h d)"
  by (auto simp: parseCore_def reference_parseCore_def topArg_def Let_def last_conv_nth)

theorem reference_parameter_witness:
  "parse exampleEnv 2 (reference ''x'' 0 [] [] 0 None) ''a'' 0 (newValues [])
      (newContext ''a'') emptyHeap ANil = Panic \<and>
   parse exampleEnv 2 (reference ''x'' 1 [] [] 0 None) ''a'' 0 (newValues [])
      ((newContext ''a'')\<lparr>argsStack := [[Dot]]\<rparr>) emptyHeap ANil = Panic \<and>
   outcome (parse exampleEnv 2 (reference ''x'' 0 [] [] 0 None) ''a'' 0 (newValues [])
      ((newContext ''a'')\<lparr>argsStack := [[Dot]]\<rparr>) emptyHeap ANil) = Some (1, None)"
  using reference_parameter [of "newContext ''a''" exampleEnv 1 "''x''" 0 "[]" "[]" 0 "''a''" 0
          "newValues []" emptyHeap ANil]
        reference_parameter [of "(newContext ''a'')\<lparr>argsStack := [[Dot]]\<rparr>" exampleEnv 1 "''x''" 1
          "[]" "[]" 0 "''a''" 0 "newValues []" emptyHeap ANil]
        reference_parameter [of "(newContext ''a'')\<lparr>argsStack := [[Dot]]\<rparr>" exampleEnv 1 "''x''" 0
          "[]" "[]" 0 "''a''" 0 "newValues []" emptyHeap ANil]
  by (simp add: newContext_def outcome_def Dot_def parseCore_def anyCharacter_parseCore_def
      numeral_2_eq_2)

section \<open>What an evaluation leaves alone in the context\<close>

lemma sameScope_refl [simp]: "sameScope c c"
  by (simp add: sameScope_def)

lemma sameScope_trans: "sameScope a b \<Longrightarrow> sameScope b c \<Longrightarrow> sameScope a c"
  by (simp add: sameScope_def)

lemma sameScope_errorPos [simp]: "sameScope c (c'\<lparr>errorPos := x\<rparr>) = sameScope c c'"
  by (simp add: sameScope_def)

lemma sameScope_setErrorPos [simp]: "sameScope c (setErrorPos p c') = sameScope c c'"
  by (simp add: setErrorPos_def)

lemma scopeKeepingD:
  "scopeKeeping rec \<Longrightarrow> rec ope s p v c h d = Return (l, e, v', c', h') \<Longrightarrow> sameScope c c'"
  unfolding scopeKeeping_def by blast

lemma inFreshFrame_scope:
  assumes "scopeKeeping rec"
    and "inFreshFrame rec ope s p c h d = Return (l, e, v', c', h')"
  shows "sameScope c c'"
proof -
  from assms(2) obtain c1 where
    r: "rec ope s p (newValues (input c)) (c\<lparr>svStack := svStack c @ [newValues (input c)]\<rparr>) h d
          = Return (l, e, v', c1, h')"
    and p: "pop c1 = Some c'"
    by (auto simp: inFreshFrame_def push_def andThen_Return_iff split: option.splits)
  from scopeKeepingD [OF assms(1) r] p show ?thesis
    by (auto simp: sameScope_def pop_def split: if_splits)
qed

lemma sequence_loop_scope:
  assumes "scopeKeeping rec"
  shows "sequence_loop rec opes s p l v c h d = Return (l', e, v', c', h') \<Longrightarrow> sameScope c c'"
proof (induction opes arbitrary: l v c h)
  case Nil
  then show ?case by simp
next
  case (Cons ope opes)
  from Cons.prems obtain chl err v1 c1 h1 where
    r: "rec ope s (p + l) v c h d = Return (chl, err, v1, c1, h1)"
    and k: "(if err \<noteq> None then Return (0, err, v1, c1, h1)
             else sequence_loop rec opes s p (l + chl) v1 c1 h1 d) = Return (l', e, v', c', h')"
    by (auto simp: andThen_Return_iff)
  have s1: "sameScope c c1" using scopeKeepingD [OF assms r] .
  show ?case
  proof (cases "err = None")
    case True
    with k have "sequence_loop rec opes s p (l + chl) v1 c1 h1 d = Return (l', e, v', c', h')"
      by simp
    from Cons.IH [OF this] s1 show ?thesis by (rule sameScope_trans [rotated])
  next
    case False
    with k s1 show ?thesis by simp
  qed
qed

lemma prioritizedChoice_loop_scope:
  assumes "scopeKeeping rec"
  shows "prioritizedChoice_loop rec opes i errs s p v c h d = Return (l', e, v', c', h')
    \<Longrightarrow> sameScope c c'"
proof (induction opes arbitrary: i errs c h)
  case Nil
  then show ?case by simp
next
  case (Cons ope opes)
  from Cons.prems obtain l1 e1 chv c1 h1 where
    r: "inFreshFrame rec ope s p c h d = Return (l1, e1, chv, c1, h1)"
    and k: "(case e1 of
         None \<Rightarrow> Return (l1, None,
           v\<lparr>Vs := Vs v @ Vs chv, Pos := Pos chv, S := S chv, Choice := i,
              Ts := Ts v @ Ts chv\<rparr>, c1, h1)
       | Some e' \<Rightarrow> prioritizedChoice_loop rec opes (i + 1) (errs @ [e']) s p v c1 h1 d)
       = Return (l', e, v', c', h')"
    by (auto simp: andThen_Return_iff)
  have s1: "sameScope c c1" using inFreshFrame_scope [OF assms r] .
  show ?case
  proof (cases e1)
    case None
    with k s1 show ?thesis by simp
  next
    case (Some e')
    with k have "prioritizedChoice_loop rec opes (i + 1) (errs @ [e']) s p v c1 h1 d
      = Return (l', e, v', c', h')" by simp
    from Cons.IH [OF this] s1 show ?thesis by (rule sameScope_trans [rotated])
  qed
qed

lemma zeroOrMore_loop_scope:
  assumes "scopeKeeping rec"
  shows "zeroOrMore_loop rec k ope s p sv l v c h d = Return (l', e, v', c', h')
    \<Longrightarrow> sameScope c c'"
proof (induction k arbitrary: l v c h)
  case 0
  then show ?case by (simp split: if_splits)
next
  case (Suc k)
  show ?case
  proof (cases "p + l < int (length s)")
    case False
    with Suc.prems show ?thesis by simp
  next
    case True
    with Suc.prems obtain chl err v1 c1 h1 where
      r: "rec ope s (p + l) v c h d = Return (chl, err, v1, c1, h1)"
      and k: "(if err \<noteq> None then
             Return (l, None, v1\<lparr>Vs := Vs v, Ts := Ts v\<rparr>, c1\<lparr>errorPos := sv\<rparr>, h1)
           else zeroOrMore_loop rec k ope s p sv (l + chl) v1 c1 h1 d)
           = Return (l', e, v', c', h')"
      by (auto simp: andThen_Return_iff Let_def)
    have s1: "sameScope c c1" using scopeKeepingD [OF assms r] .
    show ?thesis
    proof (cases "err = None")
      case True
      with k have "zeroOrMore_loop rec k ope s p sv (l + chl) v1 c1 h1 d
        = Return (l', e, v', c', h')" by simp
      from Suc.IH [OF this] s1 show ?thesis by (rule sameScope_trans [rotated])
    next
      case False
      with k s1 show ?thesis by auto
    qed
  qed
qed

lemma oneOrMore_loop_eq:
  "oneOrMore_loop rec k ope s p sv l v c h d = zeroOrMore_loop rec k ope s p sv l v c h d"
  by (induction k arbitrary: l v c h) (simp_all cong: if_cong)

lemma skipWhitespace_scope:
  assumes "scopeKeeping rec"
    and "skipWhitespace rec s p l v c h d = Return (l', e, v', c', h')"
  shows "sameScope c c'"
proof (cases "whitespaceOpe c")
  case None
  with assms(2) show ?thesis by (simp add: skipWhitespace_def)
next
  case (Some ws)
  with assms(2) obtain len err v1 c1 h1 where
    r: "rec ws s (p + l) v c h d = Return (len, err, v1, c1, h1)" and "c' = c1"
    by (auto simp: skipWhitespace_def andThen_Return_iff split: if_splits)
  with scopeKeepingD [OF assms(1) r] show ?thesis by simp
qed

lemma wordCheck_scope:
  "wordCheck rec s q v c h = Return (l', e, v', c', h') \<Longrightarrow> c' = c"
  by (auto simp: wordCheck_def andThen_Return_iff split: option.splits)

lemma literalString_scope:
  assumes "scopeKeeping rec"
    and "literalString_parseCore E rec li a s p v c h d = Return (l', e, v', c', h')"
  shows "sameScope c c'"
proof -
  from assms(2) obtain matched where
    k: "(if \<not> matched then
         Return (0, Some (mkOperatorError E [li] s p (int (length li))), v, setErrorPos p c, h)
       else
         (let l = int (length li) in
          andThen (initIsWord rec li a s c h) (\<lambda>h1.
            andThen
              (if isWord h1 a then wordCheck rec s (p + l) v c h1
               else Return (0, None, v, c, h1))
              (\<lambda>(len, err, v2, c2, h2).
                 if err \<noteq> None then Return (0, err, v2, c2, h2)
                 else if inToken c2 = False then skipWhitespace rec s p (l + len) v2 c2 h2 d
                 else Return (l + len, None, v2, c2, h2))))) = Return (l', e, v', c', h')"
    by (auto simp: literalString_parseCore_def andThen_Return_iff)
  show ?thesis
  proof (cases matched)
    case False
    with k show ?thesis by auto
  next
    case True
    with k obtain h1 len err v2 c2 h2 where
      w: "(if isWord h1 a then wordCheck rec s (p + int (length li)) v c h1
           else Return (0, None, v, c, h1)) = Return (len, err, v2, c2, h2)"
      and k2: "(if err \<noteq> None then Return (0, err, v2, c2, h2)
                 else if inToken c2 = False
                   then skipWhitespace rec s p (int (length li) + len) v2 c2 h2 d
                 else Return (int (length li) + len, None, v2, c2, h2))
               = Return (l', e, v', c', h')"
      by (auto simp: andThen_Return_iff Let_def)
    from w have c2: "c2 = c" by (auto dest: wordCheck_scope split: if_splits)
    from k2 show ?thesis
      using skipWhitespace_scope [OF assms(1)] c2 by (auto split: if_splits)
  qed
qed

lemma tokenBoundary_scope:
  assumes "scopeKeeping rec"
    and "tokenBoundary_parseCore rec ope s p v c h d = Return (l', e, v', c', h')"
  shows "sameScope c c' \<and> \<not> inToken c'"
proof -
  from assms(2) obtain l err v1 c1 h1 where
    r: "rec ope s p v (c\<lparr>inToken := True\<rparr>) h d = Return (l, err, v1, c1, h1)"
    and k: "(if err = None then
          (case slice s p (p + l) of
             None \<Rightarrow> Panic
           | Some tok \<Rightarrow>
               skipWhitespace rec s p l (v1\<lparr>Ts := Ts v1 @ [Token p tok]\<rparr>)
                 (c1\<lparr>inToken := False\<rparr>) h1 d)
        else Return (l, err, v1, c1\<lparr>inToken := False\<rparr>, h1)) = Return (l', e, v', c', h')"
    by (auto simp: tokenBoundary_parseCore_def andThen_Return_iff Let_def)
  have s1: "sameScope c (c1\<lparr>inToken := False\<rparr>)"
    using scopeKeepingD [OF assms(1) r] by (simp add: sameScope_def)
  show ?thesis
  proof (cases "err = None")
    case False
    with k s1 show ?thesis by auto
  next
    case True
    with k obtain tok where
      "skipWhitespace rec s p l (v1\<lparr>Ts := Ts v1 @ [Token p tok]\<rparr>)
                 (c1\<lparr>inToken := False\<rparr>) h1 d = Return (l', e, v', c', h')"
      by (auto split: option.splits)
    from skipWhitespace_scope [OF assms(1) this] s1 show ?thesis
      by (auto simp: sameScope_def)
  qed
qed

lemma whitespace_scope:
  assumes "scopeKeeping rec"
    and "whitespace_parseCore rec ope s p v c h d = Return (l', e, v', c', h')"
  shows "sameScope c c'"
proof (cases "inWhitespace c")
  case True
  with assms(2) show ?thesis by (simp add: whitespace_parseCore_def)
next
  case False
  with assms(2) obtain c1 l err v1 h1 where
    r: "rec ope s p v (c\<lparr>inWhitespace := True\<rparr>) h d = Return (l, err, v1, c1, h1)"
    and "c' = c1\<lparr>inWhitespace := False\<rparr>"
    by (auto simp: whitespace_parseCore_def andThen_Return_iff)
  with scopeKeepingD [OF assms(1) r] False show ?thesis by (simp add: sameScope_def)
qed

lemma Rule_parse_scope:
  assumes "scopeKeeping rec"
    and "Rule_parse rec r s p v c h d = Return (l', e, v', c', h')"
  shows "sameScope c c'"
proof -
  from assms(2) obtain l err chv1 c1 h1 where
    r: "rec (Ope r) s p (newValues (input c))
          (c\<lparr>svStack := svStack c @ [newValues (input c)]\<rparr>) h d = Return (l, err, chv1, c1, h1)"
    and p: "pop c1 = Some c'"
    by (auto simp: Rule_parse_def push_def andThen_Return_iff Let_def split: option.splits)
  from scopeKeepingD [OF assms(1) r] p show ?thesis
    by (auto simp: sameScope_def pop_def split: if_splits)
qed

lemma reference_scope:
  assumes "scopeKeeping rec"
    and "reference_parseCore E rec ia as ru s p v c h d = Return (l', e, v', c', h')"
  shows "sameScope c c'"
proof (cases ru)
  case None
  with assms(2) have "rec (topArg c ! nat ia) s p v c h d = Return (l', e, v', c', h')"
    by (auto simp: reference_parseCore_def Let_def split: if_splits)
  from scopeKeepingD [OF assms(1) this] show ?thesis .
next
  case (Some ra)
  with assms(2) obtain r where r: "rules E ra = Some r"
    by (auto simp: reference_parseCore_def split: option.splits)
  show ?thesis
  proof (cases "Parameters r")
    case None
    with assms(2) Some r have "Rule_parse rec r s p v c h d = Return (l', e, v', c', h')"
      by (simp add: reference_parseCore_def)
    from Rule_parse_scope [OF assms(1) this] show ?thesis .
  next
    case (Some params)
    with assms(2) \<open>ru = Some ra\<close> r obtain c2 where
      rp: "Rule_parse rec r s p v (pushArgs (map (findReference E (topArg c) params) as) c) h d
        = Return (l', e, v', c2, h')"
      and pp: "popArgs c2 = Some c'"
      by (auto simp: reference_parseCore_def andThen_Return_iff Let_def split: option.splits)
    from Rule_parse_scope [OF assms(1) rp] pp show ?thesis
      by (auto simp: sameScope_def popArgs_def pushArgs_def split: if_splits)
  qed
qed

lemma parseCore_scope:
  assumes "scopeKeeping rec"
    and "parseCore E rec k ope s p v c h d = Return (l', e, v', c', h')"
  shows "sameScope c c'"
proof (cases ope)
  case (sequence opes)
  with assms(2) show ?thesis
    using sequence_loop_scope [OF assms(1)]
    by (simp add: parseCore_def sequence_parseCore_def)
next
  case (prioritizedChoice opes)
  with assms(2) show ?thesis
    using prioritizedChoice_loop_scope [OF assms(1)]
    by (simp add: parseCore_def prioritizedChoice_parseCore_def)
next
  case (zeroOrMore x)
  with assms(2) show ?thesis
    using zeroOrMore_loop_scope [OF assms(1)]
    by (simp add: parseCore_def zeroOrMore_parseCore_def)
next
  case (oneOrMore x)
  with assms(2) obtain l err v1 c1 h1 where
    r: "rec x s p v c h d = Return (l, err, v1, c1, h1)"
    and k: "err \<noteq> None \<Longrightarrow> c' = c1"
      "err = None \<Longrightarrow> oneOrMore_loop rec k x s p (errorPos c1) l v1 c1 h1 d
         = Return (l', e, v', c', h')"
    by (auto simp: parseCore_def oneOrMore_parseCore_def andThen_Return_iff Let_def
        split: if_splits)
  have s1: "sameScope c c1" using scopeKeepingD [OF assms(1) r] .
  show ?thesis
  proof (cases "err = None")
    case True
    with k have "zeroOrMore_loop rec k x s p (errorPos c1) l v1 c1 h1 d
      = Return (l', e, v', c', h')" by (simp add: oneOrMore_loop_eq)
    from zeroOrMore_loop_scope [OF assms(1) this] s1 show ?thesis
      by (rule sameScope_trans [rotated])
  next
    case False
    with k s1 show ?thesis by simp
  qed
next
  case (option x)
  with assms(2) obtain l err v1 c1 h1 where
    r: "rec x s p v c h d = Return (l, err, v1, c1, h1)"
    and "c' = c1 \<or> c' = c1\<lparr>errorPos := errorPos c\<rparr>"
    by (auto simp: parseCore_def option_parseCore_def andThen_Return_iff Let_def
        split: if_splits)
  with scopeKeepingD [OF assms(1) r] show ?thesis by auto
next
  case (andPredicate x)
  with assms(2) obtain l err chv h1 where
    "inFreshFrame rec x s p c h d = Return (l, err, chv, c', h1)"
    by (auto simp: parseCore_def andPredicate_parseCore_def andThen_Return_iff)
  from inFreshFrame_scope [OF assms(1) this] show ?thesis .
next
  case (notPredicate x)
  with assms(2) obtain l err chv c1 h1 where
    r: "inFreshFrame rec x s p c h d = Return (l, err, chv, c1, h1)"
    and "c' = setErrorPos p c1 \<or> c' = c1\<lparr>errorPos := errorPos c\<rparr>"
    by (auto simp: parseCore_def notPredicate_parseCore_def andThen_Return_iff Let_def
        split: if_splits)
  with inFreshFrame_scope [OF assms(1) r] show ?thesis by auto
next
  case (literalString li a)
  with assms(2) show ?thesis
    using literalString_scope [OF assms(1)] by (simp add: parseCore_def)
next
  case (characterClass chars)
  with assms(2) show ?thesis
    by (auto simp: parseCore_def characterClass_parseCore_def split: if_splits option.splits)
next
  case anyCharacter
  with assms(2) show ?thesis
    by (auto simp: parseCore_def anyCharacter_parseCore_def split: if_splits)
next
  case (tokenBoundary x)
  with assms(2) show ?thesis
    using tokenBoundary_scope [OF assms(1)] by (simp add: parseCore_def)
next
  case (ignore x)
  with assms(2) obtain l err chv h1 where
    "inFreshFrame rec x s p c h d = Return (l, err, chv, c', h1)"
    by (auto simp: parseCore_def ignore_parseCore_def andThen_Return_iff)
  from inFreshFrame_scope [OF assms(1) this] show ?thesis .
next
  case (user fn)
  with assms(2) show ?thesis
    by (auto simp: parseCore_def user_parseCore_def andThen_Return_iff)
next
  case (reference nm ia as ias ps ru)
  with assms(2) show ?thesis
    using reference_scope [OF assms(1)] by (simp add: parseCore_def)
next
  case (whitespace x)
  with assms(2) show ?thesis
    using whitespace_scope [OF assms(1)] by (simp add: parseCore_def)
qed

lemma parse_scopeKeeping: "scopeKeeping (parse E n)"
proof (induction n)
  case 0
  show ?case by (simp add: scopeKeeping_def)
next
  case (Suc n)
  show ?case
    unfolding scopeKeeping_def
    using parseCore_scope [OF Suc] by auto
qed

text \<open>
  C7. Evaluating an operator leaves the depth of the stack of frames as it was, on success
  and on failure: every push inside (prioritized choice, the predicates, ignore, the call
  of a rule) is followed by its pop before the operator returns.
\<close>

theorem parse_keeps_stack_depth:
  "parse E n ope s p v c h d = Return (l, e, v', c', h') \<Longrightarrow>
   length (svStack c') = length (svStack c)"
  using scopeKeepingD [OF parse_scopeKeeping, of E n ope s p v c h d l e v' c' h']
  by (simp add: sameScope_def)

theorem parse_keeps_stack_depth_witness:
  "(\<exists>v' c' h'.
      parse exampleEnv 4 (Seq [Ign (literalString ''a'' 0),
          Cho [Npd (literalString ''b'' 1), Apd (literalString ''b'' 1)]]) ''ab'' 0
        (newValues ''ab'') ((newContext ''ab'')\<lparr>svStack := [newValues ''ab'']\<rparr>) emptyHeap ANil
      = Return (1, None, v', c', h') \<and> length (svStack c') = 1) \<and>
   (\<exists>e v' c' h'.
      parse exampleEnv 4 (Seq [Ign (literalString ''a'' 0),
          Cho [Npd (literalString ''a'' 1), Apd (literalString ''b'' 1)]]) ''aa'' 0
        (newValues ''aa'') ((newContext ''aa'')\<lparr>svStack := [newValues ''aa'']\<rparr>) emptyHeap ANil
      = Return (0, Some e, v', c', h') \<and> length (svStack c') = 1)"
proof -
  let ?good = "parse exampleEnv 4 (Seq [Ign (literalString ''a'' 0),
          Cho [Npd (literalString ''b'' 1), Apd (literalString ''b'' 1)]]) ''ab'' 0
        (newValues ''ab'') ((newContext ''ab'')\<lparr>svStack := [newValues ''ab'']\<rparr>) emptyHeap ANil"
  let ?bad = "parse exampleEnv 4 (Seq [Ign (literalString ''a'' 0),
          Cho [Npd (literalString ''a'' 1), Apd (literalString ''b'' 1)]]) ''aa'' 0
        (newValues ''aa'') ((newContext ''aa'')\<lparr>svStack := [newValues ''aa'']\<rparr>) emptyHeap ANil"
  have "outcome ?good = Some (1, None)" by code_simp
  then obtain v1 c1 h1 where g: "?good = Return (1, None, v1, c1, h1)"
    by (auto simp: outcome_def split: exec.splits)
  have "map_option (\<lambda>(l, e). (l, e \<noteq> None)) (outcome ?bad) = Some (0, True)" by code_simp
  then obtain e2 v2 c2 h2 where b: "?bad = Return (0, Some e2, v2, c2, h2)"
    by (auto simp: outcome_def split: exec.splits)
  show ?thesis
    using parse_keeps_stack_depth [OF g] parse_keeps_stack_depth [OF b] g b by simp
qed

section \<open>Prioritized choice\<close>

text \<open>The loop body of the code is one alternative as the specification words it.\<close>

lemma inFreshFrame_alternativeRun:
  "inFreshFrame rec ope s p c h d = alternativeRun rec ope s p c h d"
  by (auto simp: inFreshFrame_def alternativeRun_def push_def pop_def newValues_def andThen_def
      split: exec.splits)

lemma failedAlternatives_Cons:
  "failedAlternatives rec (ope # opes) s p c h d = Some (es, c2, h2) \<longleftrightarrow>
   (\<exists>l e chv c1 h1 es'. alternativeRun rec ope s p c h d = Return (l, Some e, chv, c1, h1) \<and>
      failedAlternatives rec opes s p c1 h1 d = Some (es', c2, h2) \<and> es = e # es')"
  by (auto split: exec.splits option.splits)

lemma choice_loop_skip:
  "failedAlternatives rec xs s p c h d = Some (es, c1, h1) \<Longrightarrow>
   prioritizedChoice_loop rec (xs @ ys) i errs s p v c h d =
   prioritizedChoice_loop rec ys (i + int (length xs)) (errs @ es) s p v c1 h1 d"
proof (induction xs arbitrary: i errs es c h)
  case Nil
  then show ?case by simp
next
  case (Cons x xs)
  from Cons.prems obtain l e chv c0 h0 es' where
    f: "alternativeRun rec x s p c h d = Return (l, Some e, chv, c0, h0)"
    and r: "failedAlternatives rec xs s p c0 h0 d = Some (es', c1, h1)"
    and es: "es = e # es'"
    unfolding failedAlternatives_Cons by blast
  have "prioritizedChoice_loop rec ((x # xs) @ ys) i errs s p v c h d =
        prioritizedChoice_loop rec (xs @ ys) (i + 1) (errs @ [e]) s p v c0 h0 d"
    using f by (simp add: inFreshFrame_alternativeRun)
  also have "\<dots> = prioritizedChoice_loop rec ys (i + 1 + int (length xs)) ((errs @ [e]) @ es')
      s p v c1 h1 d"
    by (rule Cons.IH [OF r])
  also have "i + 1 + int (length xs) = i + int (length (x # xs))" by simp
  also have "(errs @ [e]) @ es' = errs @ es" by (simp add: es)
  finally show ?case .
qed

lemma choice_loop_cases:
  "prioritizedChoice_loop rec opes i errs s p v c h d = Return (l, e, v', c', h') \<Longrightarrow>
   (\<exists>es. failedAlternatives rec opes s p c h d = Some (es, c', h') \<and> l = 0 \<and>
      e = Some (SequenceError (errs @ es)) \<and> v' = v) \<or>
   (\<exists>k es c1 h1 chv. k < length opes \<and>
      failedAlternatives rec (take k opes) s p c h d = Some (es, c1, h1) \<and>
      alternativeRun rec (opes ! k) s p c1 h1 d = Return (l, None, chv, c', h') \<and>
      e = None \<and> v' = spliced v chv (i + int k))"
proof (induction opes arbitrary: i errs c h)
  case Nil
  then show ?case by simp
next
  case (Cons x xs)
  from Cons.prems obtain l1 e1 chv c1 h1 where
    f: "alternativeRun rec x s p c h d = Return (l1, e1, chv, c1, h1)"
    and k: "e1 = None \<Longrightarrow> l = l1 \<and> e = None \<and> v' = spliced v chv i \<and> c' = c1 \<and> h' = h1"
      "\<And>e'. e1 = Some e' \<Longrightarrow>
         prioritizedChoice_loop rec xs (i + 1) (errs @ [e']) s p v c1 h1 d
           = Return (l, e, v', c', h')"
    by (auto simp: andThen_Return_iff spliced_def inFreshFrame_alternativeRun
        split: option.splits)
  show ?case
  proof (cases e1)
    case None
    with k(1) f have "0 < length (x # xs) \<and>
      failedAlternatives rec (take 0 (x # xs)) s p c h d = Some ([], c, h) \<and>
      alternativeRun rec ((x # xs) ! 0) s p c h d = Return (l, None, chv, c', h') \<and>
      e = None \<and> v' = spliced v chv (i + int 0)" by simp
    then show ?thesis by blast
  next
    case (Some e')
    from Cons.IH [OF k(2) [OF Some]] show ?thesis
    proof (elim disjE exE conjE)
      fix es
      assume "failedAlternatives rec xs s p c1 h1 d = Some (es, c', h')" "l = 0"
        "e = Some (SequenceError ((errs @ [e']) @ es))" "v' = v"
      with f Some have "failedAlternatives rec (x # xs) s p c h d = Some (e' # es, c', h') \<and>
        l = 0 \<and> e = Some (SequenceError (errs @ e' # es)) \<and> v' = v" by simp
      then show ?thesis by blast
    next
      fix k es c2 h2 chv2
      assume "k < length xs" "failedAlternatives rec (take k xs) s p c1 h1 d = Some (es, c2, h2)"
        "alternativeRun rec (xs ! k) s p c2 h2 d = Return (l, None, chv2, c', h')" "e = None"
        "v' = spliced v chv2 (i + 1 + int k)"
      with f Some have "Suc k < length (x # xs) \<and>
        failedAlternatives rec (take (Suc k) (x # xs)) s p c h d = Some (e' # es, c2, h2) \<and>
        alternativeRun rec ((x # xs) ! Suc k) s p c2 h2 d = Return (l, None, chv2, c', h') \<and>
        e = None \<and> v' = spliced v chv2 (i + int (Suc k))"
        by (simp add: add.commute add.left_commute)
      then show ?thesis by blast
    qed
  qed
qed

lemma failedAlternatives_length:
  "failedAlternatives rec opes s p c h d = Some (es, c', h') \<Longrightarrow> length es = length opes"
proof (induction opes arbitrary: es c h)
  case Nil
  then show ?case by simp
next
  case (Cons x xs)
  then show ?case unfolding failedAlternatives_Cons by auto
qed

text \<open>When the alternatives before \<open>k\<close> fail and alternative \<open>k\<close> succeeds, the choice returns
  the splice, whatever follows alternative \<open>k\<close> in the list.\<close>

lemma choice_loop_success:
  assumes fa: "failedAlternatives rec xs s p c h d = Some (es, c1, h1)"
    and w: "alternativeRun rec x s p c1 h1 d = Return (l, None, chv, c', h')"
  shows "prioritizedChoice_loop rec (xs @ x # rest) 0 [] s p v c h d =
    Return (l, None, spliced v chv (int (length xs)), c', h')"
proof -
  have "prioritizedChoice_loop rec (xs @ x # rest) 0 [] s p v c h d =
      prioritizedChoice_loop rec (x # rest) (0 + int (length xs)) ([] @ es) s p v c1 h1 d"
    by (rule choice_loop_skip [OF fa])
  also have "\<dots> = Return (l, None, spliced v chv (int (length xs)), c', h')"
    using w by (simp add: inFreshFrame_alternativeRun spliced_def)
  finally show ?thesis .
qed

lemma choice_loop_failure:
  assumes fa: "failedAlternatives rec xs s p c h d = Some (es, c', h')"
  shows "prioritizedChoice_loop rec xs 0 [] s p v c h d =
    Return (0, Some (SequenceError es), v, c', h')"
  using choice_loop_skip [OF fa, of "[]" 0 "[]" v] by simp

text \<open>
  C1. A prioritized choice tries its alternatives from the left, each in a freshly pushed
  frame that is popped afterwards. It returns exactly in these two ways. The alternatives
  before some ordinal \<open>k\<close> fail and alternative \<open>k\<close> succeeds: then the child frame's \<open>Vs\<close>
  and \<open>Ts\<close> are appended to the parent frame, \<open>Pos\<close> and \<open>S\<close> are those of the child frame,
  \<open>Choice\<close> is \<open>k\<close>, and the child's length is returned. Or every alternative fails: then
  the length is 0, the error is a \<open>SequenceError\<close> listing the errors of the alternatives in
  order, and the parent frame is as it was, with nothing of the failed alternatives in it.
  In the first case the later alternatives are not tried: the result is the same whatever
  follows alternative \<open>k\<close> in the list.
\<close>

theorem prioritizedChoice_parse:
  "(parse E (Suc n) (Cho opes) s p v c h d = Return (l, e, v', c', h') \<longleftrightarrow>
      (\<exists>k es c1 h1 chv. k < length opes \<and>
         failedAlternatives (parse E n) (take k opes) s p c h d = Some (es, c1, h1) \<and>
         alternativeRun (parse E n) (opes ! k) s p c1 h1 d = Return (l, None, chv, c', h') \<and>
         e = None \<and>
         v' = v\<lparr>Vs := Vs v @ Vs chv, Pos := Pos chv, S := S chv, Choice := int k,
                 Ts := Ts v @ Ts chv\<rparr>) \<or>
      (\<exists>es. failedAlternatives (parse E n) opes s p c h d = Some (es, c', h') \<and>
         length es = length opes \<and> l = 0 \<and> e = Some (SequenceError es) \<and> v' = v)) \<and>
   (\<forall>k es c1 h1 l chv c' h' rest. k < length opes \<and>
      failedAlternatives (parse E n) (take k opes) s p c h d = Some (es, c1, h1) \<and>
      alternativeRun (parse E n) (opes ! k) s p c1 h1 d = Return (l, None, chv, c', h') \<longrightarrow>
      parse E (Suc n) (Cho (take (Suc k) opes @ rest)) s p v c h d =
        Return (l, None,
          v\<lparr>Vs := Vs v @ Vs chv, Pos := Pos chv, S := S chv, Choice := int k,
            Ts := Ts v @ Ts chv\<rparr>, c', h'))"
proof (intro conjI allI impI iffI)
  assume "parse E (Suc n) (Cho opes) s p v c h d = Return (l, e, v', c', h')"
  then have
    run: "prioritizedChoice_loop (parse E n) opes 0 [] s p v c h d = Return (l, e, v', c', h')"
    by (simp add: Cho_def parseCore_def prioritizedChoice_parseCore_def)
  from choice_loop_cases [OF run] failedAlternatives_length
  show "(\<exists>k es c1 h1 chv. k < length opes \<and>
         failedAlternatives (parse E n) (take k opes) s p c h d = Some (es, c1, h1) \<and>
         alternativeRun (parse E n) (opes ! k) s p c1 h1 d = Return (l, None, chv, c', h') \<and>
         e = None \<and>
         v' = v\<lparr>Vs := Vs v @ Vs chv, Pos := Pos chv, S := S chv, Choice := int k,
                 Ts := Ts v @ Ts chv\<rparr>) \<or>
      (\<exists>es. failedAlternatives (parse E n) opes s p c h d = Some (es, c', h') \<and>
         length es = length opes \<and> l = 0 \<and> e = Some (SequenceError es) \<and> v' = v)"
    by (fastforce simp: spliced_def)
next
  assume rhs: "(\<exists>k es c1 h1 chv. k < length opes \<and>
         failedAlternatives (parse E n) (take k opes) s p c h d = Some (es, c1, h1) \<and>
         alternativeRun (parse E n) (opes ! k) s p c1 h1 d = Return (l, None, chv, c', h') \<and>
         e = None \<and>
         v' = v\<lparr>Vs := Vs v @ Vs chv, Pos := Pos chv, S := S chv, Choice := int k,
                 Ts := Ts v @ Ts chv\<rparr>) \<or>
      (\<exists>es. failedAlternatives (parse E n) opes s p c h d = Some (es, c', h') \<and>
         length es = length opes \<and> l = 0 \<and> e = Some (SequenceError es) \<and> v' = v)"
  then show "parse E (Suc n) (Cho opes) s p v c h d = Return (l, e, v', c', h')"
  proof (elim disjE exE conjE)
    fix k es c1 h1 chv
    assume k: "k < length opes"
      and fa: "failedAlternatives (parse E n) (take k opes) s p c h d = Some (es, c1, h1)"
      and w: "alternativeRun (parse E n) (opes ! k) s p c1 h1 d = Return (l, None, chv, c', h')"
      and e: "e = None"
      and v': "v' = v\<lparr>Vs := Vs v @ Vs chv, Pos := Pos chv, S := S chv, Choice := int k,
                 Ts := Ts v @ Ts chv\<rparr>"
    have split: "opes = take k opes @ opes ! k # drop (Suc k) opes"
      using k by (simp add: id_take_nth_drop [symmetric])
    have len: "length (take k opes) = k" using k by simp
    have "prioritizedChoice_loop (parse E n) (take k opes @ opes ! k # drop (Suc k) opes) 0 []
        s p v c h d = Return (l, None, spliced v chv (int (length (take k opes))), c', h')"
      by (rule choice_loop_success [OF fa w])
    then have "prioritizedChoice_loop (parse E n) opes 0 [] s p v c h d =
        Return (l, None, spliced v chv (int k), c', h')"
      using split len by simp
    then show ?thesis
      by (simp add: Cho_def parseCore_def prioritizedChoice_parseCore_def e v' spliced_def)
  next
    fix es
    assume "failedAlternatives (parse E n) opes s p c h d = Some (es, c', h')"
      and "l = 0" "e = Some (SequenceError es)" "v' = v"
    then show ?thesis
      using choice_loop_failure [of "parse E n" opes s p c h d es c' h' v]
      by (simp add: Cho_def parseCore_def prioritizedChoice_parseCore_def)
  qed
next
  fix k es c1 h1 l chv c' h' rest
  assume a: "k < length opes \<and>
      failedAlternatives (parse E n) (take k opes) s p c h d = Some (es, c1, h1) \<and>
      alternativeRun (parse E n) (opes ! k) s p c1 h1 d = Return (l, None, chv, c', h')"
  then have k: "k < length opes"
    and fa: "failedAlternatives (parse E n) (take k opes) s p c h d = Some (es, c1, h1)"
    and w: "alternativeRun (parse E n) (opes ! k) s p c1 h1 d = Return (l, None, chv, c', h')"
    by simp_all
  have tk: "take (Suc k) opes @ rest = take k opes @ opes ! k # rest"
    using k by (simp add: take_Suc_conv_app_nth)
  have len: "length (take k opes) = k" using k by simp
  have "prioritizedChoice_loop (parse E n) (take k opes @ opes ! k # rest) 0 [] s p v c h d =
      Return (l, None, spliced v chv (int (length (take k opes))), c', h')"
    by (rule choice_loop_success [OF fa w])
  then show "parse E (Suc n) (Cho (take (Suc k) opes @ rest)) s p v c h d =
        Return (l, None,
          v\<lparr>Vs := Vs v @ Vs chv, Pos := Pos chv, S := S chv, Choice := int k,
            Ts := Ts v @ Ts chv\<rparr>, c', h')"
    unfolding tk len
    by (simp add: Cho_def parseCore_def prioritizedChoice_parseCore_def spliced_def)
qed

text \<open>
  The example choice on \<open>ab\<close>: the value and token of the second alternative are appended
  to those of the parent, \<open>Pos\<close> and \<open>S\<close> are the child's, \<open>Choice\<close> is 1, and nothing of
  the first alternative, whose own frame held a value and a token when it failed, is in
  the parent frame; the result is the same with another alternative after the second.
  With the first alternative alone the choice fails with the aggregate error and leaves
  the parent frame as it was.
\<close>

theorem prioritizedChoice_parse_witness:
  "(\<exists>c' h' k es c1 h1 chv.
      parse exampleEnv (Suc 5) (Cho exampleAlternatives) ''ab'' 0 exampleParent (newContext ''ab'')
        emptyHeap ANil
        = Return (2, None,
            \<lparr>SS = ''ab'', Vs = [AInt 7, AStr ''won''], Pos = 5, S = ''ab'', Choice = 1,
               Ts = [Token 9 ''t'', Token 0 ''a'']\<rparr>, c', h') \<and>
      k < 3 \<and>
      failedAlternatives (parse exampleEnv 5) (take k exampleAlternatives) ''ab'' 0
        (newContext ''ab'') emptyHeap ANil = Some (es, c1, h1) \<and>
      alternativeRun (parse exampleEnv 5) (exampleAlternatives ! k) ''ab'' 0 c1 h1 ANil
        = Return (2, None, chv, c', h') \<and>
      \<lparr>SS = ''ab'', Vs = [AInt 7, AStr ''won''], Pos = 5, S = ''ab'', Choice = 1,
         Ts = [Token 9 ''t'', Token 0 ''a'']\<rparr>
        = exampleParent\<lparr>Vs := Vs exampleParent @ Vs chv, Pos := Pos chv, S := S chv,
            Choice := int k, Ts := Ts exampleParent @ Ts chv\<rparr> \<and>
      parse exampleEnv (Suc 5) (Cho (take (Suc k) exampleAlternatives @ [literalString ''ab'' 9]))
        ''ab'' 0 exampleParent (newContext ''ab'') emptyHeap ANil
        = Return (2, None,
            \<lparr>SS = ''ab'', Vs = [AInt 7, AStr ''won''], Pos = 5, S = ''ab'', Choice = 1,
               Ts = [Token 9 ''t'', Token 0 ''a'']\<rparr>, c', h')) \<and>
   (\<exists>c' h' es.
      parse exampleEnv (Suc 5) (Cho (take 1 exampleAlternatives)) ''ab'' 0 exampleParent
        (newContext ''ab'') emptyHeap ANil
        = Return (0, Some (SequenceError [OperatorError [''x''] ''ab'' 1 2 1]), exampleParent,
            c', h') \<and>
      failedAlternatives (parse exampleEnv 5) (take 1 exampleAlternatives) ''ab'' 0
        (newContext ''ab'') emptyHeap ANil = Some (es, c', h')) \<and>
   map_option (\<lambda>v. (Vs v, Ts v)) (frameOf (alternativeRun (parse exampleEnv 5)
      (exampleAlternatives ! 0) ''ab'' 0 (newContext ''ab'') emptyHeap ANil))
     = Some ([AStr ''lost''], [Token 0 ''a''])"
proof -
  let ?win = "parse exampleEnv (Suc 5) (Cho exampleAlternatives) ''ab'' 0 exampleParent
    (newContext ''ab'') emptyHeap ANil"
  let ?lose = "parse exampleEnv (Suc 5) (Cho (take 1 exampleAlternatives)) ''ab'' 0 exampleParent
    (newContext ''ab'') emptyHeap ANil"
  let ?v = "\<lparr>SS = ''ab'', Vs = [AInt 7, AStr ''won''], Pos = 5, S = ''ab'', Choice = 1,
               Ts = [Token 9 ''t'', Token 0 ''a'']\<rparr>"
  have "outcome ?win = Some (2, None)" by code_simp
  moreover have "frameOf ?win = Some ?v" by code_simp
  ultimately obtain c1 h1 where w: "?win = Return (2, None, ?v, c1, h1)"
    by (auto simp: outcome_def frameOf_def split: exec.splits)
  have len: "length exampleAlternatives = 3" by (simp add: exampleAlternatives_def)
  from prioritizedChoice_parse [THEN conjunct1, THEN iffD1, OF w]
  obtain k es c1' h1' chv where k: "k < 3"
    and fa: "failedAlternatives (parse exampleEnv 5) (take k exampleAlternatives) ''ab'' 0
        (newContext ''ab'') emptyHeap ANil = Some (es, c1', h1')"
    and ar: "alternativeRun (parse exampleEnv 5) (exampleAlternatives ! k) ''ab'' 0 c1' h1' ANil
        = Return (2, None, chv, c1, h1)"
    and sp: "?v = exampleParent\<lparr>Vs := Vs exampleParent @ Vs chv, Pos := Pos chv, S := S chv,
            Choice := int k, Ts := Ts exampleParent @ Ts chv\<rparr>"
    unfolding len by blast
  from k have k': "k < length exampleAlternatives" by (simp add: len)
  from prioritizedChoice_parse [THEN conjunct2, rule_format, OF conjI [OF k' conjI [OF fa ar]],
      where v = exampleParent and rest = "[literalString ''ab'' 9]"] sp
  have later: "parse exampleEnv (Suc 5)
      (Cho (take (Suc k) exampleAlternatives @ [literalString ''ab'' 9]))
      ''ab'' 0 exampleParent (newContext ''ab'') emptyHeap ANil = Return (2, None, ?v, c1, h1)"
    by simp
  from w k fa ar sp later
  have first: "\<exists>c' h' k es c1 h1 chv. ?win = Return (2, None, ?v, c', h') \<and> k < 3 \<and>
      failedAlternatives (parse exampleEnv 5) (take k exampleAlternatives) ''ab'' 0
        (newContext ''ab'') emptyHeap ANil = Some (es, c1, h1) \<and>
      alternativeRun (parse exampleEnv 5) (exampleAlternatives ! k) ''ab'' 0 c1 h1 ANil
        = Return (2, None, chv, c', h') \<and>
      ?v = exampleParent\<lparr>Vs := Vs exampleParent @ Vs chv, Pos := Pos chv, S := S chv,
            Choice := int k, Ts := Ts exampleParent @ Ts chv\<rparr> \<and>
      parse exampleEnv (Suc 5)
        (Cho (take (Suc k) exampleAlternatives @ [literalString ''ab'' 9]))
        ''ab'' 0 exampleParent (newContext ''ab'') emptyHeap ANil = Return (2, None, ?v, c', h')"
    by blast
  have "outcome ?lose = Some (0, Some (SequenceError [OperatorError [''x''] ''ab'' 1 2 1]))"
    by code_simp
  moreover have "frameOf ?lose = Some exampleParent" by code_simp
  ultimately obtain c2 h2 where
    l: "?lose = Return (0, Some (SequenceError [OperatorError [''x''] ''ab'' 1 2 1]),
      exampleParent, c2, h2)"
    by (auto simp: outcome_def frameOf_def split: exec.splits)
  from prioritizedChoice_parse [THEN conjunct1, THEN iffD1, OF l]
  have second: "\<exists>c' h' es. ?lose = Return (0, Some (SequenceError
        [OperatorError [''x''] ''ab'' 1 2 1]), exampleParent, c', h') \<and>
      failedAlternatives (parse exampleEnv 5) (take 1 exampleAlternatives) ''ab'' 0
        (newContext ''ab'') emptyHeap ANil = Some (es, c', h')"
    using l by blast
  have third: "map_option (\<lambda>v. (Vs v, Ts v)) (frameOf (alternativeRun (parse exampleEnv 5)
      (exampleAlternatives ! 0) ''ab'' 0 (newContext ''ab'') emptyHeap ANil))
     = Some ([AStr ''lost''], [Token 0 ''a''])"
    by code_simp
  from first second third show ?thesis by blast
qed

section \<open>Sequence\<close>

lemma succeededChildren_Cons:
  "succeededChildren rec (ope # opes) s p l v c h d = Some r \<longleftrightarrow>
   (\<exists>chl v1 c1 h1. rec ope s (p + l) v c h d = Return (chl, None, v1, c1, h1) \<and>
      succeededChildren rec opes s p (l + chl) v1 c1 h1 d = Some r)"
  by (auto split: exec.splits option.splits)

lemma sequence_loop_skip:
  "succeededChildren rec xs s p l v c h d = Some (l1, v1, c1, h1) \<Longrightarrow>
   sequence_loop rec (xs @ ys) s p l v c h d = sequence_loop rec ys s p l1 v1 c1 h1 d"
proof (induction xs arbitrary: l v c h)
  case Nil
  then show ?case by simp
next
  case (Cons x xs)
  from Cons.prems obtain chl v0 c0 h0 where
    f: "rec x s (p + l) v c h d = Return (chl, None, v0, c0, h0)"
    and r: "succeededChildren rec xs s p (l + chl) v0 c0 h0 d = Some (l1, v1, c1, h1)"
    unfolding succeededChildren_Cons by blast
  have "sequence_loop rec ((x # xs) @ ys) s p l v c h d =
        sequence_loop rec (xs @ ys) s p (l + chl) v0 c0 h0 d"
    using f by simp
  also have "\<dots> = sequence_loop rec ys s p l1 v1 c1 h1 d"
    by (rule Cons.IH [OF r])
  finally show ?case .
qed

lemma sequence_loop_cases:
  "sequence_loop rec opes s p l v c h d = Return (l', e, v', c', h') \<Longrightarrow>
   (e = None \<and> succeededChildren rec opes s p l v c h d = Some (l', v', c', h')) \<or>
   (\<exists>k l1 v1 c1 h1 chl err. k < length opes \<and>
      succeededChildren rec (take k opes) s p l v c h d = Some (l1, v1, c1, h1) \<and>
      rec (opes ! k) s (p + l1) v1 c1 h1 d = Return (chl, Some err, v', c', h') \<and>
      l' = 0 \<and> e = Some err)"
proof (induction opes arbitrary: l v c h)
  case Nil
  then show ?case by simp
next
  case (Cons x xs)
  from Cons.prems obtain chl e1 v0 c0 h0 where
    f: "rec x s (p + l) v c h d = Return (chl, e1, v0, c0, h0)"
    and k: "\<And>err. e1 = Some err \<Longrightarrow> l' = 0 \<and> e = Some err \<and> v' = v0 \<and> c' = c0 \<and> h' = h0"
      "e1 = None \<Longrightarrow>
         sequence_loop rec xs s p (l + chl) v0 c0 h0 d = Return (l', e, v', c', h')"
    by (auto simp: andThen_Return_iff split: if_splits)
  show ?case
  proof (cases e1)
    case (Some err)
    with k(1) f have "0 < length (x # xs) \<and>
      succeededChildren rec (take 0 (x # xs)) s p l v c h d = Some (l, v, c, h) \<and>
      rec ((x # xs) ! 0) s (p + l) v c h d = Return (chl, Some err, v', c', h') \<and>
      l' = 0 \<and> e = Some err" by simp
    then show ?thesis by blast
  next
    case None
    from Cons.IH [OF k(2) [OF None]] show ?thesis
    proof (elim disjE exE conjE)
      assume "e = None" "succeededChildren rec xs s p (l + chl) v0 c0 h0 d = Some (l', v', c', h')"
      with f None show ?thesis by simp
    next
      fix k l1 v1 c1 h1 chl1 err
      assume "k < length xs"
        "succeededChildren rec (take k xs) s p (l + chl) v0 c0 h0 d = Some (l1, v1, c1, h1)"
        "rec (xs ! k) s (p + l1) v1 c1 h1 d = Return (chl1, Some err, v', c', h')"
        "l' = 0" "e = Some err"
      with f None have "Suc k < length (x # xs) \<and>
        succeededChildren rec (take (Suc k) (x # xs)) s p l v c h d = Some (l1, v1, c1, h1) \<and>
        rec ((x # xs) ! Suc k) s (p + l1) v1 c1 h1 d = Return (chl1, Some err, v', c', h') \<and>
        l' = 0 \<and> e = Some err"
        by simp
      then show ?thesis by blast
    qed
  qed
qed

text \<open>
  C2, as the code has it. A sequence that returns has evaluated its children from the left
  on the current frame, the length accumulating. Either all succeeded; or the children
  before some index \<open>k\<close> succeeded and child \<open>k\<close> failed: then the sequence returns length 0
  and that child's error, later children are not evaluated, and the frame is the one the
  failing child returned, having received it from the earlier children. The sequence
  itself rolls nothing back.
\<close>

theorem sequence_parse:
  assumes "parse E (Suc n) (Seq opes) s p v c h d = Return (l, e, v', c', h')"
  shows "(e = None \<and>
            succeededChildren (parse E n) opes s p 0 v c h d = Some (l, v', c', h')) \<or>
         (\<exists>k l1 v1 c1 h1 chl err. k < length opes \<and>
            succeededChildren (parse E n) (take k opes) s p 0 v c h d = Some (l1, v1, c1, h1) \<and>
            parse E n (opes ! k) s (p + l1) v1 c1 h1 d = Return (chl, Some err, v', c', h') \<and>
            l = 0 \<and> e = Some err \<and>
            (\<forall>rest. parse E (Suc n) (Seq (take (Suc k) opes @ rest)) s p v c h d =
                      Return (l, e, v', c', h')))"
proof -
  from assms have
    run: "sequence_loop (parse E n) opes s p 0 v c h d = Return (l, e, v', c', h')"
    by (simp add: Seq_def parseCore_def sequence_parseCore_def)
  from sequence_loop_cases [OF run] show ?thesis
  proof (elim disjE exE conjE)
    assume "e = None" "succeededChildren (parse E n) opes s p 0 v c h d = Some (l, v', c', h')"
    then show ?thesis by simp
  next
    fix k l1 v1 c1 h1 chl err
    assume k: "k < length opes"
      and sc: "succeededChildren (parse E n) (take k opes) s p 0 v c h d = Some (l1, v1, c1, h1)"
      and f: "parse E n (opes ! k) s (p + l1) v1 c1 h1 d = Return (chl, Some err, v', c', h')"
      and l: "l = 0" and e: "e = Some err"
    have "\<And>rest. parse E (Suc n) (Seq (take (Suc k) opes @ rest)) s p v c h d =
                      Return (l, e, v', c', h')"
    proof -
      fix rest
      have "take (Suc k) opes @ rest = take k opes @ (opes ! k # rest)"
        using k by (simp add: take_Suc_conv_app_nth)
      then have "parse E (Suc n) (Seq (take (Suc k) opes @ rest)) s p v c h d =
        sequence_loop (parse E n) (take k opes @ (opes ! k # rest)) s p 0 v c h d"
        by (simp add: Seq_def parseCore_def sequence_parseCore_def)
      also have "\<dots> = sequence_loop (parse E n) (opes ! k # rest) s p l1 v1 c1 h1 d"
        by (rule sequence_loop_skip [OF sc])
      also have "\<dots> = Return (l, e, v', c', h')"
        using f by (simp add: l e)
      finally show "parse E (Suc n) (Seq (take (Suc k) opes @ rest)) s p v c h d =
                      Return (l, e, v', c', h')" .
    qed
    with k sc f l e show ?thesis by blast
  qed
qed

text \<open>
  C2 as stated fails: in \<open>Seq(Tok(Lit("a")), Lit("b"))\<close> on \<open>ac\<close> the token boundary succeeds
  and appends a token, the second literal fails, and the sequence returns length 0 and
  the error with the token still in the frame, whose token list was empty before.
\<close>

theorem sequence_keeps_tokens_counterexample:
  "outcome (parse exampleEnv 4 (Seq [Tok (literalString ''a'' 0), literalString ''b'' 1]) ''ac'' 0
      (newValues ''ac'') (newContext ''ac'') emptyHeap ANil)
     = Some (0, Some (OperatorError [''b''] ''ac'' 1 2 1)) \<and>
   map_option Ts (frameOf (parse exampleEnv 4
      (Seq [Tok (literalString ''a'' 0), literalString ''b'' 1]) ''ac'' 0
      (newValues ''ac'') (newContext ''ac'') emptyHeap ANil)) = Some [Token 0 ''a''] \<and>
   Ts (newValues ''ac'') = []"
proof -
  have "outcome (parse exampleEnv 4 (Seq [Tok (literalString ''a'' 0), literalString ''b'' 1])
      ''ac'' 0 (newValues ''ac'') (newContext ''ac'') emptyHeap ANil)
     = Some (0, Some (OperatorError [''b''] ''ac'' 1 2 1))"
    by code_simp
  moreover have "map_option Ts (frameOf (parse exampleEnv 4
      (Seq [Tok (literalString ''a'' 0), literalString ''b'' 1]) ''ac'' 0
      (newValues ''ac'') (newContext ''ac'') emptyHeap ANil)) = Some [Token 0 ''a'']"
    by code_simp
  moreover have "Ts (newValues ''ac'') = []"
    by (simp add: newValues_def)
  ultimately show ?thesis by simp
qed

theorem sequence_parse_witness:
  "\<exists>v' c' h' k l1 v1 c1 h1 chl.
      parse exampleEnv (Suc 3) (Seq [Tok (literalString ''a'' 0), literalString ''b'' 1]) ''ac'' 0
        (newValues ''ac'') (newContext ''ac'') emptyHeap ANil
        = Return (0, Some (OperatorError [''b''] ''ac'' 1 2 1), v', c', h') \<and>
      k < 2 \<and>
      succeededChildren (parse exampleEnv 3)
        (take k [Tok (literalString ''a'' 0), literalString ''b'' 1]) ''ac'' 0 0
        (newValues ''ac'') (newContext ''ac'') emptyHeap ANil = Some (l1, v1, c1, h1) \<and>
      parse exampleEnv 3 ([Tok (literalString ''a'' 0), literalString ''b'' 1] ! k) ''ac''
        (0 + l1) v1 c1 h1 ANil
        = Return (chl, Some (OperatorError [''b''] ''ac'' 1 2 1), v', c', h') \<and>
      Ts v' = [Token 0 ''a'']"
proof -
  let ?opes = "[Tok (literalString ''a'' 0), literalString ''b'' 1]"
  let ?run = "parse exampleEnv (Suc 3) (Seq ?opes) ''ac'' 0 (newValues ''ac'') (newContext ''ac'')
    emptyHeap ANil"
  have "outcome ?run = Some (0, Some (OperatorError [''b''] ''ac'' 1 2 1))" by code_simp
  then obtain v' c' h' where
    r: "?run = Return (0, Some (OperatorError [''b''] ''ac'' 1 2 1), v', c', h')"
    by (auto simp: outcome_def split: exec.splits)
  have "map_option Ts (frameOf ?run) = Some [Token 0 ''a'']" by code_simp
  with r have ts: "Ts v' = [Token 0 ''a'']" by (simp add: frameOf_def)
  have len: "length ?opes = 2" by simp
  from sequence_parse [OF r] show ?thesis
    unfolding len using ts r by blast
qed

section \<open>Repetition\<close>

lemma zeroOrMore_loop_cases:
  "zeroOrMore_loop rec k ope s p save l v c h d = Return (l', e, v', c', h') \<Longrightarrow>
   e = None \<and>
   (\<exists>m lm vm cm hm. afterIterations rec m ope s p l v c h d = Some (lm, vm, cm, hm) \<and>
      l' = lm \<and>
      (\<not> p + lm < int (length s) \<and> v' = vm \<and> c' = cm \<and> h' = hm \<or>
       p + lm < int (length s) \<and>
       (\<exists>chl err vf cf hf.
          rec ope s (p + lm) vm cm hm d = Return (chl, Some err, vf, cf, hf) \<and>
          Vs v' = Vs vm \<and> Ts v' = Ts vm \<and> errorPos c' = save \<and>
          v' = vf\<lparr>Vs := Vs vm, Ts := Ts vm\<rparr> \<and> c' = cf\<lparr>errorPos := save\<rparr> \<and> h' = hf)))"
proof (induction k arbitrary: l v c h)
  case 0
  then have "\<not> p + l < int (length s)" and "l' = l" "e = None" "v' = v" "c' = c" "h' = h"
    by (auto split: if_splits)
  moreover have "afterIterations rec 0 ope s p l v c h d = Some (l, v, c, h)" by simp
  ultimately show ?case by blast
next
  case (Suc k)
  have zero: "afterIterations rec 0 ope s p l v c h d = Some (l, v, c, h)" by simp
  show ?case
  proof (cases "p + l < int (length s)")
    case False
    with Suc.prems have "l' = l" "e = None" "v' = v" "c' = c" "h' = h" by auto
    with False zero show ?thesis by blast
  next
    case True
    with Suc.prems obtain chl e1 v1 c1 h1 where
      r: "rec ope s (p + l) v c h d = Return (chl, e1, v1, c1, h1)"
      and k: "\<And>err. e1 = Some err \<Longrightarrow> l' = l \<and> e = None \<and> v' = v1\<lparr>Vs := Vs v, Ts := Ts v\<rparr> \<and>
                c' = c1\<lparr>errorPos := save\<rparr> \<and> h' = h1"
        "e1 = None \<Longrightarrow> zeroOrMore_loop rec k ope s p save (l + chl) v1 c1 h1 d
                = Return (l', e, v', c', h')"
      by (auto simp: andThen_Return_iff Let_def split: if_splits)
    show ?thesis
    proof (cases e1)
      case (Some err)
      with k(1) have extra: "Vs v' = Vs v" "Ts v' = Ts v" "errorPos c' = save" by simp_all
      from Some k(1) r True zero extra show ?thesis by blast
    next
      case None
      from Suc.IH [OF k(2) [OF None]] obtain m lm vm cm hm where
        e: "e = None"
        and ai: "afterIterations rec m ope s p (l + chl) v1 c1 h1 d = Some (lm, vm, cm, hm)"
        and rest: "l' = lm"
          "\<not> p + lm < int (length s) \<and> v' = vm \<and> c' = cm \<and> h' = hm \<or>
           p + lm < int (length s) \<and>
           (\<exists>chl err vf cf hf.
              rec ope s (p + lm) vm cm hm d = Return (chl, Some err, vf, cf, hf) \<and>
              Vs v' = Vs vm \<and> Ts v' = Ts vm \<and> errorPos c' = save \<and>
              v' = vf\<lparr>Vs := Vs vm, Ts := Ts vm\<rparr> \<and> c' = cf\<lparr>errorPos := save\<rparr> \<and> h' = hf)"
        by blast
      have "afterIterations rec (Suc m) ope s p l v c h d = Some (lm, vm, cm, hm)"
        using True r None ai by simp
      with e rest show ?thesis by blast
    qed
  qed
qed

text \<open>
  C3, as the code has it. A repetition that returns has run some number of successful
  iterations and then stopped, either because the cursor is no longer before the end of
  the input, or because the child failed in the next iteration. In the second case the
  frame's \<open>Vs\<close> and \<open>Ts\<close> are those immediately before the failing iteration, and the
  error position is the one saved once before the loop: for \<open>zeroOrMore\<close> the value at
  entry, for \<open>oneOrMore\<close> the value after the first child succeeded. A failure of the first
  child of \<open>oneOrMore\<close> is returned as it is.
\<close>

theorem repetition_restores:
  "(parse E (Suc n) (Zom ope) s p v c h d = Return (l', e, v', c', h') \<longrightarrow>
      e = None \<and>
      (\<exists>m lm vm cm hm.
         afterIterations (parse E n) m ope s p 0 v c h d = Some (lm, vm, cm, hm) \<and> l' = lm \<and>
         (\<not> p + lm < int (length s) \<and> v' = vm \<and> c' = cm \<and> h' = hm \<or>
          p + lm < int (length s) \<and>
          (\<exists>chl err vf cf hf.
             parse E n ope s (p + lm) vm cm hm d = Return (chl, Some err, vf, cf, hf) \<and>
             Vs v' = Vs vm \<and> Ts v' = Ts vm \<and> errorPos c' = errorPos c \<and>
             v' = vf\<lparr>Vs := Vs vm, Ts := Ts vm\<rparr> \<and> c' = cf\<lparr>errorPos := errorPos c\<rparr> \<and>
             h' = hf)))) \<and>
   (parse E (Suc n) (Oom ope) s p v c h d = Return (l', e, v', c', h') \<longrightarrow>
      (\<exists>l0 e0 v0 c0 h0.
         parse E n ope s p v c h d = Return (l0, e0, v0, c0, h0) \<and>
         (e0 \<noteq> None \<and> l' = l0 \<and> e = e0 \<and> v' = v0 \<and> c' = c0 \<and> h' = h0 \<or>
          e0 = None \<and> e = None \<and>
          (\<exists>m lm vm cm hm.
             afterIterations (parse E n) m ope s p l0 v0 c0 h0 d = Some (lm, vm, cm, hm) \<and>
             l' = lm \<and>
             (\<not> p + lm < int (length s) \<and> v' = vm \<and> c' = cm \<and> h' = hm \<or>
              p + lm < int (length s) \<and>
              (\<exists>chl err vf cf hf.
                 parse E n ope s (p + lm) vm cm hm d = Return (chl, Some err, vf, cf, hf) \<and>
                 Vs v' = Vs vm \<and> Ts v' = Ts vm \<and> errorPos c' = errorPos c0 \<and>
                 v' = vf\<lparr>Vs := Vs vm, Ts := Ts vm\<rparr> \<and> c' = cf\<lparr>errorPos := errorPos c0\<rparr> \<and>
                 h' = hf))))))"
  apply (rule conjI; rule impI)
  subgoal premises a
  proof -
    from a have "zeroOrMore_loop (parse E n) n ope s p (errorPos c) 0 v c h d
      = Return (l', e, v', c', h')"
      by (simp add: Zom_def parseCore_def zeroOrMore_parseCore_def)
    from zeroOrMore_loop_cases [OF this] show ?thesis .
  qed
  subgoal premises a
  proof -
    from a obtain l0 e0 v0 c0 h0 where
      r: "parse E n ope s p v c h d = Return (l0, e0, v0, c0, h0)"
      and k: "e0 \<noteq> None \<Longrightarrow> l' = l0 \<and> e = e0 \<and> v' = v0 \<and> c' = c0 \<and> h' = h0"
        "e0 = None \<Longrightarrow> zeroOrMore_loop (parse E n) n ope s p (errorPos c0) l0 v0 c0 h0 d
           = Return (l', e, v', c', h')"
      by (auto simp: Oom_def parseCore_def oneOrMore_parseCore_def andThen_Return_iff Let_def
          oneOrMore_loop_eq split: if_splits)
    show ?thesis
    proof (cases "e0 = None")
      case False
      with r k(1) show ?thesis by blast
    next
      case True
      from zeroOrMore_loop_cases [OF k(2) [OF True]] r True show ?thesis by blast
    qed
  qed
  done

text \<open>
  C3 as stated fails for the error position: in \<open>Zom(Cho(Lit("ab"), Lit("a")))\<close> on
  \<open>aac\<close>, each of the two successful iterations has its first alternative fail, which moves
  the error position; it is 1 immediately before the third iteration, which fails, and 0
  (its value before the loop) after the operator returned.
\<close>

theorem repetition_errorPos_counterexample:
  "map_option (\<lambda>(l, v, c, h). (l, errorPos c))
     (afterIterations (parse exampleEnv 3) 2
        (Cho [literalString ''ab'' 0, literalString ''a'' 1]) ''aac'' 0 0
        (newValues ''aac'') (newContext ''aac'') emptyHeap ANil) = Some (2, 1) \<and>
   (case afterIterations (parse exampleEnv 3) 2
        (Cho [literalString ''ab'' 0, literalString ''a'' 1]) ''aac'' 0 0
        (newValues ''aac'') (newContext ''aac'') emptyHeap ANil of
      Some (l, v, c, h) \<Rightarrow>
        map_option (\<lambda>(l', e). e \<noteq> None)
          (outcome (parse exampleEnv 3 (Cho [literalString ''ab'' 0, literalString ''a'' 1])
             ''aac'' (0 + l) v c h ANil))
    | None \<Rightarrow> None) = Some True \<and>
   outcome (parse exampleEnv (Suc 3) (Zom (Cho [literalString ''ab'' 0, literalString ''a'' 1]))
      ''aac'' 0 (newValues ''aac'') (newContext ''aac'') emptyHeap ANil) = Some (2, None) \<and>
   map_option errorPos (contextOf (parse exampleEnv (Suc 3)
      (Zom (Cho [literalString ''ab'' 0, literalString ''a'' 1]))
      ''aac'' 0 (newValues ''aac'') (newContext ''aac'') emptyHeap ANil)) = Some 0"
proof -
  have "map_option (\<lambda>(l, v, c, h). (l, errorPos c))
     (afterIterations (parse exampleEnv 3) 2
        (Cho [literalString ''ab'' 0, literalString ''a'' 1]) ''aac'' 0 0
        (newValues ''aac'') (newContext ''aac'') emptyHeap ANil) = Some (2, 1)"
    by code_simp
  moreover have "(case afterIterations (parse exampleEnv 3) 2
        (Cho [literalString ''ab'' 0, literalString ''a'' 1]) ''aac'' 0 0
        (newValues ''aac'') (newContext ''aac'') emptyHeap ANil of
      Some (l, v, c, h) \<Rightarrow>
        map_option (\<lambda>(l', e). e \<noteq> None)
          (outcome (parse exampleEnv 3 (Cho [literalString ''ab'' 0, literalString ''a'' 1])
             ''aac'' (0 + l) v c h ANil))
    | None \<Rightarrow> None) = Some True"
    by code_simp
  moreover have "outcome (parse exampleEnv (Suc 3)
      (Zom (Cho [literalString ''ab'' 0, literalString ''a'' 1]))
      ''aac'' 0 (newValues ''aac'') (newContext ''aac'') emptyHeap ANil) = Some (2, None)"
    by code_simp
  moreover have "map_option errorPos (contextOf (parse exampleEnv (Suc 3)
      (Zom (Cho [literalString ''ab'' 0, literalString ''a'' 1]))
      ''aac'' 0 (newValues ''aac'') (newContext ''aac'') emptyHeap ANil)) = Some 0"
    by code_simp
  ultimately show ?thesis by blast
qed

theorem repetition_restores_witness:
  "(\<exists>v' c' h' m vm cm hm.
      parse exampleEnv (Suc 3) (Zom (Cho [literalString ''ab'' 0, literalString ''a'' 1]))
        ''aac'' 0 (newValues ''aac'') (newContext ''aac'') emptyHeap ANil
        = Return (2, None, v', c', h') \<and>
      afterIterations (parse exampleEnv 3) m (Cho [literalString ''ab'' 0, literalString ''a'' 1])
        ''aac'' 0 0 (newValues ''aac'') (newContext ''aac'') emptyHeap ANil
        = Some (2, vm, cm, hm) \<and>
      Vs v' = Vs vm \<and> Ts v' = Ts vm \<and> errorPos c' = errorPos (newContext ''aac'')) \<and>
   (\<exists>v' c' h' l0 v0 c0 h0 m vm cm hm.
      parse exampleEnv (Suc 3) (Oom (Cho [literalString ''ab'' 0, literalString ''a'' 1]))
        ''aac'' 0 (newValues ''aac'') (newContext ''aac'') emptyHeap ANil
        = Return (2, None, v', c', h') \<and>
      parse exampleEnv 3 (Cho [literalString ''ab'' 0, literalString ''a'' 1])
        ''aac'' 0 (newValues ''aac'') (newContext ''aac'') emptyHeap ANil
        = Return (l0, None, v0, c0, h0) \<and>
      afterIterations (parse exampleEnv 3) m (Cho [literalString ''ab'' 0, literalString ''a'' 1])
        ''aac'' 0 l0 v0 c0 h0 ANil = Some (2, vm, cm, hm) \<and>
      Vs v' = Vs vm \<and> Ts v' = Ts vm \<and> errorPos c' = errorPos c0)"
proof -
  let ?X = "Cho [literalString ''ab'' 0, literalString ''a'' 1]"
  let ?zom = "parse exampleEnv (Suc 3) (Zom ?X) ''aac'' 0 (newValues ''aac'') (newContext ''aac'')
    emptyHeap ANil"
  let ?oom = "parse exampleEnv (Suc 3) (Oom ?X) ''aac'' 0 (newValues ''aac'') (newContext ''aac'')
    emptyHeap ANil"
  have "outcome ?zom = Some (2, None)" by code_simp
  then obtain v1 c1 h1 where z: "?zom = Return (2, None, v1, c1, h1)"
    by (auto simp: outcome_def split: exec.splits)
  have "outcome ?oom = Some (2, None)" by code_simp
  then obtain v2 c2 h2 where o: "?oom = Return (2, None, v2, c2, h2)"
    by (auto simp: outcome_def split: exec.splits)
  have len: "(0::int) + 2 < int (length ''aac'')" by simp
  note inst = repetition_restores [of exampleEnv 3 ?X "''aac''" 0 "newValues ''aac''"
      "newContext ''aac''" emptyHeap ANil 2 None]
  from inst [of v1 c1 h1, THEN conjunct1, rule_format, OF z]
  obtain m vm cm hm where
    ai: "afterIterations (parse exampleEnv 3) m ?X ''aac'' 0 0 (newValues ''aac'')
        (newContext ''aac'') emptyHeap ANil = Some (2, vm, cm, hm)"
    and dis: "\<not> 0 + 2 < int (length ''aac'') \<and> v1 = vm \<and> c1 = cm \<and> h1 = hm \<or>
      0 + 2 < int (length ''aac'') \<and>
      (\<exists>chl err vf cf hf.
          parse exampleEnv 3 ?X ''aac'' (0 + 2) vm cm hm ANil
            = Return (chl, Some err, vf, cf, hf) \<and>
          Vs v1 = Vs vm \<and> Ts v1 = Ts vm \<and> errorPos c1 = errorPos (newContext ''aac'') \<and>
          v1 = vf\<lparr>Vs := Vs vm, Ts := Ts vm\<rparr> \<and>
          c1 = cf\<lparr>errorPos := errorPos (newContext ''aac'')\<rparr> \<and> h1 = hf)"
    by blast
  from dis len have "Vs v1 = Vs vm \<and> Ts v1 = Ts vm \<and> errorPos c1 = errorPos (newContext ''aac'')"
    by blast
  with z ai have first: "\<exists>v' c' h' m vm cm hm. ?zom = Return (2, None, v', c', h') \<and>
      afterIterations (parse exampleEnv 3) m ?X ''aac'' 0 0 (newValues ''aac'')
        (newContext ''aac'') emptyHeap ANil = Some (2, vm, cm, hm) \<and>
      Vs v' = Vs vm \<and> Ts v' = Ts vm \<and> errorPos c' = errorPos (newContext ''aac'')"
    by blast
  from inst [of v2 c2 h2, THEN conjunct2, rule_format, OF o]
  obtain l0 v0 c0 h0 m' vm' cm' hm' where
    r0: "parse exampleEnv 3 ?X ''aac'' 0 (newValues ''aac'') (newContext ''aac'') emptyHeap ANil
        = Return (l0, None, v0, c0, h0)"
    and ai': "afterIterations (parse exampleEnv 3) m' ?X ''aac'' 0 l0 v0 c0 h0 ANil
        = Some (2, vm', cm', hm')"
    and dis': "\<not> 0 + 2 < int (length ''aac'') \<and> v2 = vm' \<and> c2 = cm' \<and> h2 = hm' \<or>
      0 + 2 < int (length ''aac'') \<and>
      (\<exists>chl err vf cf hf.
          parse exampleEnv 3 ?X ''aac'' (0 + 2) vm' cm' hm' ANil
            = Return (chl, Some err, vf, cf, hf) \<and>
          Vs v2 = Vs vm' \<and> Ts v2 = Ts vm' \<and> errorPos c2 = errorPos c0 \<and>
          v2 = vf\<lparr>Vs := Vs vm', Ts := Ts vm'\<rparr> \<and>
          c2 = cf\<lparr>errorPos := errorPos c0\<rparr> \<and> h2 = hf)"
    by blast
  from dis' len have "Vs v2 = Vs vm' \<and> Ts v2 = Ts vm' \<and> errorPos c2 = errorPos c0"
    by blast
  with o r0 ai' have second: "\<exists>v' c' h' l0 v0 c0 h0 m vm cm hm.
      ?oom = Return (2, None, v', c', h') \<and>
      parse exampleEnv 3 ?X ''aac'' 0 (newValues ''aac'') (newContext ''aac'') emptyHeap ANil
        = Return (l0, None, v0, c0, h0) \<and>
      afterIterations (parse exampleEnv 3) m ?X ''aac'' 0 l0 v0 c0 h0 ANil
        = Some (2, vm, cm, hm) \<and>
      Vs v' = Vs vm \<and> Ts v' = Ts vm \<and> errorPos c' = errorPos c0"
    by blast
  from first second show ?thesis by blast
qed

section \<open>Token boundary\<close>

lemma skipWhitespace_cases:
  "skipWhitespace rec s p l v c h d = Return (l', e, v', c', h') \<Longrightarrow>
   whitespaceOpe c = None \<and> l' = l \<and> e = None \<and> v' = v \<and> c' = c \<and> h' = h \<or>
   (\<exists>ws len werr. whitespaceOpe c = Some ws \<and>
      rec ws s (p + l) v c h d = Return (len, werr, v', c', h') \<and>
      (werr = None \<and> l' = l + len \<and> e = None \<or> werr \<noteq> None \<and> l' = 0 \<and> e = werr))"
  by (cases "whitespaceOpe c")
     (auto simp: skipWhitespace_def andThen_Return_iff split: if_splits)

text \<open>
  The token boundary as it is coded. The flag \<open>inToken\<close> is set for the child and assigned
  false afterwards, so it is false when the operator returns. If the child failed, its
  length and error are returned. If it succeeded with length \<open>l\<close>, the token
  \<open>{p, s[p:p+l]}\<close> is appended to the \<open>Ts\<close> of the current frame before the whitespace
  operator, if set, runs at \<open>p + l\<close> on that frame: its length is added to \<open>l\<close>, or its
  error is returned with length 0.
\<close>

lemma tokenBoundary_parse:
  assumes "parse E (Suc n) (Tok ope) s p v c h d = Return (l', e, v', c', h')"
  shows "\<not> inToken c' \<and>
    (\<exists>l err v1 c1 h1.
       parse E n ope s p v (c\<lparr>inToken := True\<rparr>) h d = Return (l, err, v1, c1, h1) \<and>
       (err \<noteq> None \<and> l' = l \<and> e = err \<and> v' = v1 \<and> c' = c1\<lparr>inToken := False\<rparr> \<and> h' = h1 \<or>
        err = None \<and>
        (\<exists>tok. slice s p (p + l) = Some tok \<and>
           (whitespaceOpe c1 = None \<and> l' = l \<and> e = None \<and>
              v' = v1\<lparr>Ts := Ts v1 @ [Token p tok]\<rparr> \<and> c' = c1\<lparr>inToken := False\<rparr> \<and> h' = h1 \<or>
            (\<exists>ws len werr. whitespaceOpe c1 = Some ws \<and>
               parse E n ws s (p + l) (v1\<lparr>Ts := Ts v1 @ [Token p tok]\<rparr>)
                 (c1\<lparr>inToken := False\<rparr>) h1 d = Return (len, werr, v', c', h') \<and>
               (werr = None \<and> l' = l + len \<and> e = None \<or>
                werr \<noteq> None \<and> l' = 0 \<and> e = werr))))))"
proof -
  from assms have core:
    "tokenBoundary_parseCore (parse E n) ope s p v c h d = Return (l', e, v', c', h')"
    by (simp add: Tok_def parseCore_def)
  from tokenBoundary_scope [OF parse_scopeKeeping core] have nt: "\<not> inToken c'" by simp
  from core obtain l err v1 c1 h1 where
    r: "parse E n ope s p v (c\<lparr>inToken := True\<rparr>) h d = Return (l, err, v1, c1, h1)"
    and k: "err \<noteq> None \<Longrightarrow> l' = l \<and> e = err \<and> v' = v1 \<and> c' = c1\<lparr>inToken := False\<rparr> \<and> h' = h1"
      "err = None \<Longrightarrow> \<exists>tok. slice s p (p + l) = Some tok \<and>
         skipWhitespace (parse E n) s p l (v1\<lparr>Ts := Ts v1 @ [Token p tok]\<rparr>)
           (c1\<lparr>inToken := False\<rparr>) h1 d = Return (l', e, v', c', h')"
    by (auto simp: tokenBoundary_parseCore_def andThen_Return_iff Let_def
        split: if_splits option.splits)
  show ?thesis
  proof (cases "err = None")
    case False
    with nt r k(1) show ?thesis by blast
  next
    case True
    from k(2) [OF True] obtain tok where
      sl: "slice s p (p + l) = Some tok"
      and sk: "skipWhitespace (parse E n) s p l (v1\<lparr>Ts := Ts v1 @ [Token p tok]\<rparr>)
           (c1\<lparr>inToken := False\<rparr>) h1 d = Return (l', e, v', c', h')"
      by blast
    from skipWhitespace_cases [OF sk] have
      "whitespaceOpe c1 = None \<and> l' = l \<and> e = None \<and>
              v' = v1\<lparr>Ts := Ts v1 @ [Token p tok]\<rparr> \<and> c' = c1\<lparr>inToken := False\<rparr> \<and> h' = h1 \<or>
            (\<exists>ws len werr. whitespaceOpe c1 = Some ws \<and>
               parse E n ws s (p + l) (v1\<lparr>Ts := Ts v1 @ [Token p tok]\<rparr>)
                 (c1\<lparr>inToken := False\<rparr>) h1 d = Return (len, werr, v', c', h') \<and>
               (werr = None \<and> l' = l + len \<and> e = None \<or>
                werr \<noteq> None \<and> l' = 0 \<and> e = werr))"
      by simp
    with nt r True sl show ?thesis by blast
  qed
qed

text \<open>
  C4. A token boundary is to leave \<open>c.inToken\<close> on exit as it was at entry, so that a
  token boundary nested in another leaves the outer scope in-token. The code assigns
  false instead of the entry value: a token boundary entered with \<open>inToken\<close> true, as the
  inner one of two nested token boundaries is, returns with \<open>inToken\<close> false. In
  \<open>Tok(Seq(Tok(Lit("a")), Lit("b")))\<close> on \<open>ab c\<close> with blanks as whitespace, the literal \<open>b\<close>,
  still inside the outer token, therefore skips the blank after it, and the outer token
  is \<open>ab\<close> with the blank.
\<close>

theorem tokenBoundary_nested_inToken:
  "inToken ((newContext ''ab'')\<lparr>inToken := True\<rparr>) \<and>
   map_option inToken (contextOf (parse exampleEnv (Suc 2) (Tok (literalString ''a'' 0)) ''ab'' 0
      (newValues ''ab'') ((newContext ''ab'')\<lparr>inToken := True\<rparr>) emptyHeap ANil)) = Some False \<and>
   map_option Ts (frameOf (parse exampleEnv 8
      (Tok (Seq [Tok (literalString ''a'' 0), literalString ''b'' 1])) ''ab c'' 0
      (newValues ''ab c'') ((newContext ''ab c'')\<lparr>whitespaceOpe := Some (Wsp (Zom (Cls '' '')))\<rparr>)
      emptyHeap ANil)) = Some [Token 0 ''a'', Token 0 ''ab '']"
proof -
  have "inToken ((newContext ''ab'')\<lparr>inToken := True\<rparr>)" by simp
  moreover have "map_option inToken (contextOf (parse exampleEnv (Suc 2)
      (Tok (literalString ''a'' 0)) ''ab'' 0
      (newValues ''ab'') ((newContext ''ab'')\<lparr>inToken := True\<rparr>) emptyHeap ANil)) = Some False"
    by code_simp
  moreover have "map_option Ts (frameOf (parse exampleEnv 8
      (Tok (Seq [Tok (literalString ''a'' 0), literalString ''b'' 1])) ''ab c'' 0
      (newValues ''ab c'') ((newContext ''ab c'')\<lparr>whitespaceOpe := Some (Wsp (Zom (Cls '' '')))\<rparr>)
      emptyHeap ANil)) = Some [Token 0 ''a'', Token 0 ''ab '']"
    by code_simp
  ultimately show ?thesis by blast
qed

lemma tokenBoundary_parse_example:
  "\<exists>v' c' h' l v1 c1 h1 ws len.
     parse exampleEnv (Suc 6) (Tok (literalString ''hello'' 0)) ''hello  '' 0 (newValues ''hello  '')
       ((newContext ''hello  '')\<lparr>whitespaceOpe := Some (Wsp (Zom (Cls '' '')))\<rparr>) emptyHeap ANil
       = Return (7, None, v', c', h') \<and>
     \<not> inToken c' \<and> Ts v' = [Token 0 ''hello''] \<and>
     parse exampleEnv 6 (literalString ''hello'' 0) ''hello  '' 0 (newValues ''hello  '')
       ((newContext ''hello  '')\<lparr>whitespaceOpe := Some (Wsp (Zom (Cls '' ''))), inToken := True\<rparr>)
       emptyHeap ANil = Return (l, None, v1, c1, h1) \<and>
     whitespaceOpe c1 = Some ws \<and>
     parse exampleEnv 6 ws ''hello  '' (0 + l) (v1\<lparr>Ts := Ts v1 @ [Token 0 ''hello'']\<rparr>)
        (c1\<lparr>inToken := False\<rparr>) h1 ANil = Return (len, None, v', c', h') \<and>
     7 = l + len"
proof -
  let ?c = "(newContext ''hello  '')\<lparr>whitespaceOpe := Some (Wsp (Zom (Cls '' '')))\<rparr>"
  let ?run = "parse exampleEnv (Suc 6) (Tok (literalString ''hello'' 0)) ''hello  '' 0
    (newValues ''hello  '') ?c emptyHeap ANil"
  have "outcome ?run = Some (7, None)" by code_simp
  then obtain v' c' h' where r: "?run = Return (7, None, v', c', h')"
    by (auto simp: outcome_def split: exec.splits)
  have "map_option Ts (frameOf ?run) = Some [Token 0 ''hello'']" by code_simp
  with r have ts: "Ts v' = [Token 0 ''hello'']" by (simp add: frameOf_def)
  from tokenBoundary_parse [OF r] obtain l v1 c1 h1 tok where
    nt: "\<not> inToken c'"
    and ch: "parse exampleEnv 6 (literalString ''hello'' 0) ''hello  '' 0 (newValues ''hello  '')
       (?c\<lparr>inToken := True\<rparr>) emptyHeap ANil = Return (l, None, v1, c1, h1)"
    and sl: "slice ''hello  '' 0 (0 + l) = Some tok"
    and ws: "whitespaceOpe c1 = None \<and> (7::int) = l \<and>
              v' = v1\<lparr>Ts := Ts v1 @ [Token 0 tok]\<rparr> \<and> c' = c1\<lparr>inToken := False\<rparr> \<and> h' = h1 \<or>
            (\<exists>ws len werr. whitespaceOpe c1 = Some ws \<and>
               parse exampleEnv 6 ws ''hello  '' (0 + l) (v1\<lparr>Ts := Ts v1 @ [Token 0 tok]\<rparr>)
                 (c1\<lparr>inToken := False\<rparr>) h1 ANil = Return (len, werr, v', c', h') \<and>
               (werr = None \<and> (7::int) = l + len \<or> werr \<noteq> None \<and> (7::int) = 0 \<and> None = werr))"
    by auto
  have "outcome (parse exampleEnv 6 (literalString ''hello'' 0) ''hello  '' 0 (newValues ''hello  '')
       (?c\<lparr>inToken := True\<rparr>) emptyHeap ANil) = Some (5, None)" by code_simp
  with ch have l: "l = 5" by (simp add: outcome_def)
  with sl have tok: "tok = ''hello''" by (simp add: slice_def)
  have "map_option whitespaceOpe (contextOf (parse exampleEnv 6 (literalString ''hello'' 0)
       ''hello  '' 0 (newValues ''hello  '') (?c\<lparr>inToken := True\<rparr>) emptyHeap ANil)) \<noteq> Some None"
    using scopeKeepingD [OF parse_scopeKeeping ch] by (simp add: ch contextOf_def sameScope_def)
  with ch have "whitespaceOpe c1 \<noteq> None" by (simp add: contextOf_def)
  with ws obtain ws' len where "whitespaceOpe c1 = Some ws'"
    "parse exampleEnv 6 ws' ''hello  '' (0 + l) (v1\<lparr>Ts := Ts v1 @ [Token 0 tok]\<rparr>)
                 (c1\<lparr>inToken := False\<rparr>) h1 ANil = Return (len, None, v', c', h')"
    "(7::int) = l + len"
    by auto
  with r nt ts ch tok show ?thesis by blast
qed

section \<open>The word check of a literal\<close>




section \<open>Fuel\<close>

lemma le_exec_refl [simp]: "le_exec r r"
  by (simp add: le_exec_def)

lemma le_exec_Diverged [simp]: "le_exec Diverged r"
  by (simp add: le_exec_def)

lemma le_exec_trans: "le_exec a b \<Longrightarrow> le_exec b c \<Longrightarrow> le_exec a c"
  by (auto simp: le_exec_def)

lemma le_evalD: "le_eval f g \<Longrightarrow> le_exec (f ope s p v c h d) (g ope s p v c h d)"
  by (simp add: le_eval_def)

lemma andThen_mono:
  assumes "le_exec m m'" and "\<And>x. le_exec (f x) (g x)"
  shows "le_exec (andThen m f) (andThen m' g)"
proof (cases m)
  case Diverged
  then show ?thesis by simp
next
  case Panic
  with assms(1) have "m' = Panic" by (simp add: le_exec_def)
  with Panic show ?thesis by simp
next
  case (Return x)
  with assms(1) have "m' = Return x" by (simp add: le_exec_def)
  with Return assms(2) [of x] show ?thesis by simp
qed

lemma inFreshFrame_mono:
  assumes fg: "le_eval f g"
  shows "le_exec (inFreshFrame f ope s p c h d) (inFreshFrame g ope s p c h d)"
  unfolding inFreshFrame_def
  by (auto intro!: andThen_mono le_evalD [OF fg] split: prod.splits option.splits)

lemma sequence_loop_mono:
  assumes fg: "le_eval f g"
  shows "le_exec (sequence_loop f opes s p l v c h d) (sequence_loop g opes s p l v c h d)"
proof (induction opes arbitrary: l v c h)
  case Nil
  show ?case by simp
next
  case (Cons x xs)
  show ?case
    by (auto intro!: andThen_mono le_evalD [OF fg] Cons.IH)
qed

lemma prioritizedChoice_loop_mono:
  assumes fg: "le_eval f g"
  shows "le_exec (prioritizedChoice_loop f opes i errs s p v c h d)
     (prioritizedChoice_loop g opes i errs s p v c h d)"
proof (induction opes arbitrary: i errs c h)
  case Nil
  show ?case by simp
next
  case (Cons x xs)
  show ?case
    by (auto intro!: andThen_mono inFreshFrame_mono [OF fg] Cons.IH split: option.splits)
qed

lemma zeroOrMore_loop_mono:
  assumes fg: "le_eval f g"
  shows "k \<le> k' \<Longrightarrow>
   le_exec (zeroOrMore_loop f k ope s p sv l v c h d) (zeroOrMore_loop g k' ope s p sv l v c h d)"
proof (induction k arbitrary: k' l v c h)
  case 0
  show ?case by (cases k') simp_all
next
  case (Suc k)
  from Suc.prems obtain j where k': "k' = Suc j" and kj: "k \<le> j" by (cases k') auto
  show ?case
    unfolding k'
    by (auto simp: Let_def intro!: andThen_mono le_evalD [OF fg] Suc.IH [OF kj])
qed

lemma skipWhitespace_mono:
  assumes fg: "le_eval f g"
  shows "le_exec (skipWhitespace f s p l v c h d) (skipWhitespace g s p l v c h d)"
  unfolding skipWhitespace_def
  by (auto intro!: andThen_mono le_evalD [OF fg] split: option.splits)

lemma initIsWord_mono:
  assumes fg: "le_eval f g"
  shows "le_exec (initIsWord f li a s c h) (initIsWord g li a s c h)"
  unfolding initIsWord_def
  by (auto intro!: andThen_mono le_evalD [OF fg] split: option.splits wordMemo.splits)

lemma wordCheck_mono:
  assumes fg: "le_eval f g"
  shows "le_exec (wordCheck f s q v c h) (wordCheck g s q v c h)"
  unfolding wordCheck_def
  by (auto intro!: andThen_mono le_evalD [OF fg] split: option.splits)

lemma literalString_mono:
  assumes fg: "le_eval f g"
  shows "le_exec (literalString_parseCore E f li a s p v c h d)
     (literalString_parseCore E g li a s p v c h d)"
  unfolding literalString_parseCore_def Let_def
  by (auto intro!: andThen_mono initIsWord_mono [OF fg] wordCheck_mono [OF fg]
      skipWhitespace_mono [OF fg])

lemma Rule_parse_mono:
  assumes fg: "le_eval f g"
  shows "le_exec (Rule_parse f r s p v c h d) (Rule_parse g r s p v c h d)"
  unfolding Rule_parse_def Let_def
  by (auto intro!: andThen_mono le_evalD [OF fg] split: prod.splits option.splits)

lemma reference_mono:
  assumes fg: "le_eval f g"
  shows "le_exec (reference_parseCore E f ia as ru s p v c h d)
     (reference_parseCore E g ia as ru s p v c h d)"
  unfolding reference_parseCore_def Let_def
  by (auto intro!: andThen_mono le_evalD [OF fg] Rule_parse_mono [OF fg] split: option.splits)

lemma tokenBoundary_mono:
  assumes fg: "le_eval f g"
  shows "le_exec (tokenBoundary_parseCore f ope s p v c h d)
     (tokenBoundary_parseCore g ope s p v c h d)"
  unfolding tokenBoundary_parseCore_def Let_def
  by (auto intro!: andThen_mono le_evalD [OF fg] skipWhitespace_mono [OF fg]
      split: option.splits)

lemma parseCore_mono:
  assumes "le_eval f g" and "k \<le> k'"
  shows "le_exec (parseCore E f k ope s p v c h d) (parseCore E g k' ope s p v c h d)"
proof (cases ope)
  case (sequence opes)
  then show ?thesis
    using sequence_loop_mono [OF assms(1)] by (simp add: parseCore_def sequence_parseCore_def)
next
  case (prioritizedChoice opes)
  then show ?thesis
    using prioritizedChoice_loop_mono [OF assms(1)]
    by (simp add: parseCore_def prioritizedChoice_parseCore_def)
next
  case (zeroOrMore x)
  then show ?thesis
    using zeroOrMore_loop_mono [OF assms]
    by (simp add: parseCore_def zeroOrMore_parseCore_def)
next
  case (oneOrMore x)
  then show ?thesis
    unfolding parseCore_def oneOrMore_parseCore_def Let_def oneOrMore_loop_eq
    by (auto intro!: andThen_mono le_evalD [OF assms(1)] zeroOrMore_loop_mono [OF assms])
next
  case (option x)
  then show ?thesis
    unfolding parseCore_def option_parseCore_def Let_def
    by (auto intro!: andThen_mono le_evalD [OF assms(1)])
next
  case (andPredicate x)
  then show ?thesis
    unfolding parseCore_def andPredicate_parseCore_def
    by (auto intro!: andThen_mono inFreshFrame_mono [OF assms(1)])
next
  case (notPredicate x)
  then show ?thesis
    unfolding parseCore_def notPredicate_parseCore_def Let_def
    by (auto intro!: andThen_mono inFreshFrame_mono [OF assms(1)])
next
  case (literalString li a)
  then show ?thesis
    using literalString_mono [OF assms(1)] by (simp add: parseCore_def)
next
  case (characterClass chars)
  then show ?thesis by (simp add: parseCore_def)
next
  case anyCharacter
  then show ?thesis by (simp add: parseCore_def)
next
  case (tokenBoundary x)
  then show ?thesis
    using tokenBoundary_mono [OF assms(1)] by (simp add: parseCore_def)
next
  case (ignore x)
  then show ?thesis
    unfolding parseCore_def ignore_parseCore_def
    by (auto intro!: andThen_mono inFreshFrame_mono [OF assms(1)])
next
  case (user fn)
  then show ?thesis by (simp add: parseCore_def)
next
  case (reference nm ia as ias ps ru)
  then show ?thesis
    using reference_mono [OF assms(1)] by (simp add: parseCore_def)
next
  case (whitespace x)
  then show ?thesis
    unfolding parseCore_def whitespace_parseCore_def
    by (auto intro!: andThen_mono le_evalD [OF assms(1)])
qed

lemma parse_mono_Suc: "le_eval (parse E n) (parse E (Suc n))"
proof (induction n)
  case 0
  show ?case by (simp add: le_eval_def)
next
  case (Suc n)
  show ?case
    unfolding le_eval_def
  proof (intro allI)
    fix ope s p v c h d
    show "le_exec (parse E (Suc n) ope s p v c h d) (parse E (Suc (Suc n)) ope s p v c h d)"
      unfolding parse.simps(2) [of E n ope s p v c h d]
        parse.simps(2) [of E "Suc n" ope s p v c h d]
      by (rule parseCore_mono [OF Suc]) simp
  qed
qed

lemma parse_mono: "n \<le> m \<Longrightarrow> le_eval (parse E n) (parse E m)"
proof (induction m)
  case 0
  then show ?case by (simp add: le_eval_def)
next
  case (Suc m)
  show ?case
  proof (cases "n = Suc m")
    case True
    then show ?thesis by (simp add: le_eval_def)
  next
    case False
    with Suc.prems have "n \<le> m" by simp
    from Suc.IH [OF this] parse_mono_Suc [of E m] show ?thesis
      unfolding le_eval_def by (blast intro: le_exec_trans)
  qed
qed

text \<open>Fuel is only a bound: a run that returned or panicked does the same with more fuel.\<close>

lemma parse_stable:
  assumes "parse E n ope s p v c h d = r" and "r \<noteq> Diverged" and "n \<le> m"
  shows "parse E m ope s p v c h d = r"
  using le_evalD [OF parse_mono [OF assms(3)], of E ope s p v c h d] assms(1,2)
  by (simp add: le_exec_def)

section \<open>Termination of the repetitions\<close>

lemma parse_agree:
  assumes "parse E n0 ope s p v c h d = r" and "r \<noteq> Diverged"
  shows "parse E n ope s p v c h d = Diverged \<or> parse E n ope s p v c h d = r"
proof (cases "n \<le> n0")
  case True
  from le_evalD [OF parse_mono [OF True], of E ope s p v c h d] assms(1)
  show ?thesis by (simp add: le_exec_def)
next
  case False
  then have "n0 \<le> n" by simp
  from parse_stable [OF assms this] show ?thesis by simp
qed

lemma zeroOrMore_loop_terminates:
  assumes prog: "progressing E ope s p d I"
  shows "I l v c h \<Longrightarrow>
    \<exists>N. \<forall>n\<ge>N. \<forall>k\<ge>N. zeroOrMore_loop (parse E n) k ope s p sv l v c h d \<noteq> Diverged"
proof (induction "nat (int (length s) - (p + l))" arbitrary: l v c h rule: less_induct)
  case less
  show ?case
  proof (cases "p + l < int (length s)")
    case False
    have "zeroOrMore_loop (parse E n) k ope s p sv l v c h d \<noteq> Diverged" for n k
      using False by (cases k) simp_all
    then show ?thesis by blast
  next
    case True
    from prog less.prems True obtain n0 where
      n0: "parse E n0 ope s (p + l) v c h d \<noteq> Diverged"
      unfolding progressing_def by blast
    from prog less.prems True have
      progress: "\<And>n chl v1 c1 h1. parse E n ope s (p + l) v c h d = Return (chl, None, v1, c1, h1)
        \<Longrightarrow> 1 \<le> chl \<and> I (l + chl) v1 c1 h1"
      unfolding progressing_def by blast
    define r where "r = parse E n0 ope s (p + l) v c h d"
    have stable: "parse E n ope s (p + l) v c h d = r" if "n0 \<le> n" for n
      using parse_stable [OF r_def [symmetric] _ that] n0 r_def by simp
    show ?thesis
    proof (cases r)
      case Diverged
      with n0 r_def show ?thesis by simp
    next
      case Panic
      have "zeroOrMore_loop (parse E n) k ope s p sv l v c h d \<noteq> Diverged"
        if "Suc n0 \<le> n" "Suc n0 \<le> k" for n k
      proof -
        from that obtain j where "k = Suc j" by (cases k) auto
        with True stable [of n] that Panic show ?thesis by (simp add: Let_def)
      qed
      then show ?thesis by blast
    next
      case (Return x)
      obtain chl e v1 c1 h1 where x: "x = (chl, e, v1, c1, h1)" by (cases x)
      show ?thesis
      proof (cases e)
        case (Some err)
        have "zeroOrMore_loop (parse E n) k ope s p sv l v c h d \<noteq> Diverged"
          if "Suc n0 \<le> n" "Suc n0 \<le> k" for n k
        proof -
          from that obtain j where "k = Suc j" by (cases k) auto
          with True stable [of n] that Return x Some show ?thesis by (simp add: Let_def)
        qed
        then show ?thesis by blast
      next
        case None
        from progress [of n0 chl v1 c1 h1] r_def Return x None
        have chl: "1 \<le> chl" and inv: "I (l + chl) v1 c1 h1" by simp_all
        from chl True
        have "nat (int (length s) - (p + (l + chl))) < nat (int (length s) - (p + l))"
          by simp
        from less.hyps [OF this inv] obtain N1 where
          N1: "\<And>n k. N1 \<le> n \<Longrightarrow> N1 \<le> k \<Longrightarrow>
            zeroOrMore_loop (parse E n) k ope s p sv (l + chl) v1 c1 h1 d \<noteq> Diverged"
          by blast
        have "zeroOrMore_loop (parse E n) k ope s p sv l v c h d \<noteq> Diverged"
          if "Suc (max n0 N1) \<le> n" "Suc (max n0 N1) \<le> k" for n k
        proof -
          from that obtain j where k: "k = Suc j" and j: "N1 \<le> j" by (cases k) auto
          from that have "n0 \<le> n" "N1 \<le> n" by simp_all
          with True stable [of n] Return x None N1 [of n j] j k show ?thesis
            by (simp add: Let_def)
        qed
        then show ?thesis by blast
      qed
    qed
  qed
qed

lemma zeroOrMore_loop_diverges:
  assumes before: "p + l < int (length s)"
    and stall: "stalling E ope s (p + l) d J"
  shows "J v c h \<Longrightarrow> zeroOrMore_loop (parse E n) k ope s p sv l v c h d = Diverged"
proof (induction k arbitrary: v c h)
  case 0
  with before show ?case by simp
next
  case (Suc k)
  from stall Suc.prems have
    "parse E n ope s (p + l) v c h d = Diverged \<or>
     (\<exists>v1 c1 h1. parse E n ope s (p + l) v c h d = Return (0, None, v1, c1, h1) \<and> J v1 c1 h1)"
    unfolding stalling_def by blast
  then show ?case
  proof
    assume "parse E n ope s (p + l) v c h d = Diverged"
    with before show ?thesis by (simp add: Let_def)
  next
    assume "\<exists>v1 c1 h1. parse E n ope s (p + l) v c h d = Return (0, None, v1, c1, h1) \<and>
      J v1 c1 h1"
    then obtain v1 c1 h1 where
      "parse E n ope s (p + l) v c h d = Return (0, None, v1, c1, h1)" "J v1 c1 h1" by blast
    with before Suc.IH [of v1 c1 h1] show ?thesis by (simp add: Let_def)
  qed
qed

lemma zeroOrMore_loop_prefix:
  "afterIterations (parse E n0) m ope s p l v c h d = Some (l', v', c', h') \<Longrightarrow>
   zeroOrMore_loop (parse E n) k ope s p sv l v c h d = Diverged \<or>
   (\<exists>k'. zeroOrMore_loop (parse E n) k ope s p sv l v c h d =
          zeroOrMore_loop (parse E n) k' ope s p sv l' v' c' h' d)"
proof (induction m arbitrary: l v c h k)
  case 0
  then show ?case by auto
next
  case (Suc m)
  from Suc.prems obtain chl v1 c1 h1 where
    before: "p + l < int (length s)"
    and r: "parse E n0 ope s (p + l) v c h d = Return (chl, None, v1, c1, h1)"
    and rest: "afterIterations (parse E n0) m ope s p (l + chl) v1 c1 h1 d = Some (l', v', c', h')"
    by (auto split: if_splits exec.splits option.splits)
  show ?case
  proof (cases k)
    case 0
    with before show ?thesis by simp
  next
    case (Suc j)
    from parse_agree [OF r, of n] have
      "parse E n ope s (p + l) v c h d = Diverged \<or>
       parse E n ope s (p + l) v c h d = Return (chl, None, v1, c1, h1)" by simp
    then show ?thesis
    proof
      assume "parse E n ope s (p + l) v c h d = Diverged"
      with before Suc show ?thesis by (simp add: Let_def)
    next
      assume "parse E n ope s (p + l) v c h d = Return (chl, None, v1, c1, h1)"
      with before Suc have "zeroOrMore_loop (parse E n) k ope s p sv l v c h d =
        zeroOrMore_loop (parse E n) j ope s p sv (l + chl) v1 c1 h1 d"
        by (simp add: Let_def)
      with Suc.IH [OF rest, of j] show ?thesis by simp
    qed
  qed
qed


text \<open>
  C9, as the code has it. Let \<open>I\<close> hold the states the loop starts in and gets to. If in
  these states the child terminates and every successful parse of the child at a position
  before the end of the input consumes at least one byte, then \<open>zeroOrMore\<close> and \<open>oneOrMore\<close>
  terminate: with enough fuel they return or panic. The loops have no guard against
  zero-length progress: if after some successful iterations the loop is at a position
  before the end of the input where the child, in the states \<open>J\<close> that it leaves behind
  there, keeps succeeding with zero bytes whenever it returns, then the operator does not
  return with any fuel.
\<close>

theorem repetition_termination:
  "(I 0 v c h \<and> progressing E ope s p d I \<longrightarrow>
      (\<exists>n. parse E n (Zom ope) s p v c h d \<noteq> Diverged)) \<and>
   ((\<exists>n. parse E n ope s p v c h d \<noteq> Diverged) \<and>
    (\<forall>n lo vo co ho. parse E n ope s p v c h d = Return (lo, None, vo, co, ho) \<longrightarrow>
       I lo vo co ho) \<and>
    progressing E ope s p d I \<longrightarrow>
      (\<exists>n. parse E n (Oom ope) s p v c h d \<noteq> Diverged)) \<and>
   (afterIterations (parse E nr) m ope s p 0 v c h d = Some (l, vm, cm, hm) \<and>
    p + l < int (length s) \<and> J vm cm hm \<and> stalling E ope s (p + l) d J \<longrightarrow>
      (\<forall>n. parse E n (Zom ope) s p v c h d = Diverged)) \<and>
   (parse E nr ope s p v c h d = Return (lo, None, vo, co, ho) \<and>
    afterIterations (parse E nr) m ope s p lo vo co ho d = Some (l, vm, cm, hm) \<and>
    p + l < int (length s) \<and> J vm cm hm \<and> stalling E ope s (p + l) d J \<longrightarrow>
      (\<forall>n. parse E n (Oom ope) s p v c h d = Diverged))"
proof (intro conjI impI)
  assume a: "I 0 v c h \<and> progressing E ope s p d I"
  from zeroOrMore_loop_terminates [of E ope s p d I 0 v c h "errorPos c"] a obtain N where
    "zeroOrMore_loop (parse E N) N ope s p (errorPos c) 0 v c h d \<noteq> Diverged" by blast
  then have "parse E (Suc N) (Zom ope) s p v c h d \<noteq> Diverged"
    by (simp add: Zom_def parseCore_def zeroOrMore_parseCore_def)
  then show "\<exists>n. parse E n (Zom ope) s p v c h d \<noteq> Diverged" by blast
next
  assume a: "(\<exists>n. parse E n ope s p v c h d \<noteq> Diverged) \<and>
    (\<forall>n lo vo co ho. parse E n ope s p v c h d = Return (lo, None, vo, co, ho) \<longrightarrow>
       I lo vo co ho) \<and>
    progressing E ope s p d I"
  then obtain n1 where n1: "parse E n1 ope s p v c h d \<noteq> Diverged" by blast
  from a have first: "\<And>n lo vo co ho.
      parse E n ope s p v c h d = Return (lo, None, vo, co, ho) \<Longrightarrow> I lo vo co ho"
    and prog: "progressing E ope s p d I" by blast+
  define r where "r = parse E n1 ope s p v c h d"
  have stable: "parse E n ope s p v c h d = r" if "n1 \<le> n" for n
    using parse_stable [OF r_def [symmetric] _ that] n1 r_def by simp
  show "\<exists>n. parse E n (Oom ope) s p v c h d \<noteq> Diverged"
  proof (cases r)
    case Diverged
    with n1 r_def show ?thesis by simp
  next
    case Panic
    with stable [of n1] have "parse E (Suc n1) (Oom ope) s p v c h d \<noteq> Diverged"
      by (simp add: Oom_def parseCore_def oneOrMore_parseCore_def)
    then show ?thesis by blast
  next
    case (Return x)
    obtain l1 e v1 c1 h1 where x: "x = (l1, e, v1, c1, h1)" by (cases x)
    show ?thesis
    proof (cases e)
      case (Some err)
      with stable [of n1] Return x have "parse E (Suc n1) (Oom ope) s p v c h d \<noteq> Diverged"
        by (simp add: Oom_def parseCore_def oneOrMore_parseCore_def)
      then show ?thesis by blast
    next
      case None
      from first [of n1 l1 v1 c1 h1] r_def Return x None have "I l1 v1 c1 h1" by simp
      from zeroOrMore_loop_terminates [OF prog this, of "errorPos c1"] obtain N where
        N: "\<And>n k. N \<le> n \<Longrightarrow> N \<le> k \<Longrightarrow>
          zeroOrMore_loop (parse E n) k ope s p (errorPos c1) l1 v1 c1 h1 d \<noteq> Diverged"
        by blast
      have "parse E (Suc (max n1 N)) (Oom ope) s p v c h d \<noteq> Diverged"
        using stable [of "max n1 N"] Return x None N [of "max n1 N" "max n1 N"]
        by (simp add: Oom_def parseCore_def oneOrMore_parseCore_def oneOrMore_loop_eq Let_def)
      then show ?thesis by blast
    qed
  qed
next
  assume a: "afterIterations (parse E nr) m ope s p 0 v c h d = Some (l, vm, cm, hm) \<and>
    p + l < int (length s) \<and> J vm cm hm \<and> stalling E ope s (p + l) d J"
  then have reach: "afterIterations (parse E nr) m ope s p 0 v c h d = Some (l, vm, cm, hm)"
    and before: "p + l < int (length s)" and inv: "J vm cm hm"
    and stall: "stalling E ope s (p + l) d J" by simp_all
  show "\<forall>n. parse E n (Zom ope) s p v c h d = Diverged"
  proof
    fix n
    show "parse E n (Zom ope) s p v c h d = Diverged"
    proof (cases n)
      case 0
      then show ?thesis by simp
    next
      case (Suc j)
      from zeroOrMore_loop_prefix [OF reach, of j j "errorPos c"]
        zeroOrMore_loop_diverges [OF before stall inv, of j _ "errorPos c"]
      have "zeroOrMore_loop (parse E j) j ope s p (errorPos c) 0 v c h d = Diverged"
        by auto
      with Suc show ?thesis
        by (simp add: Zom_def parseCore_def zeroOrMore_parseCore_def)
    qed
  qed
next
  assume a: "parse E nr ope s p v c h d = Return (lo, None, vo, co, ho) \<and>
    afterIterations (parse E nr) m ope s p lo vo co ho d = Some (l, vm, cm, hm) \<and>
    p + l < int (length s) \<and> J vm cm hm \<and> stalling E ope s (p + l) d J"
  then have first: "parse E nr ope s p v c h d = Return (lo, None, vo, co, ho)"
    and reach: "afterIterations (parse E nr) m ope s p lo vo co ho d = Some (l, vm, cm, hm)"
    and before: "p + l < int (length s)" and inv: "J vm cm hm"
    and stall: "stalling E ope s (p + l) d J" by simp_all
  show "\<forall>n. parse E n (Oom ope) s p v c h d = Diverged"
  proof
    fix n
    show "parse E n (Oom ope) s p v c h d = Diverged"
    proof (cases n)
      case 0
      then show ?thesis by simp
    next
      case (Suc j)
      from parse_agree [OF first, of j] have
        "parse E j ope s p v c h d = Diverged \<or>
         parse E j ope s p v c h d = Return (lo, None, vo, co, ho)" by simp
      then show ?thesis
      proof
        assume "parse E j ope s p v c h d = Diverged"
        with Suc show ?thesis by (simp add: Oom_def parseCore_def oneOrMore_parseCore_def)
      next
        assume r: "parse E j ope s p v c h d = Return (lo, None, vo, co, ho)"
        from zeroOrMore_loop_prefix [OF reach, of j j "errorPos co"]
          zeroOrMore_loop_diverges [OF before stall inv, of j _ "errorPos co"]
        have "zeroOrMore_loop (parse E j) j ope s p (errorPos co) lo vo co ho d = Diverged"
          by auto
        with Suc r show ?thesis
          by (simp add: Oom_def parseCore_def oneOrMore_parseCore_def oneOrMore_loop_eq Let_def)
      qed
    qed
  qed
qed

text \<open>
  C9 as stated fails: a zero-length success of the child before the end of the input does
  not by itself make the loop run forever. The user function \<open>succeedOnce\<close> succeeds with
  zero bytes at position 0 of \<open>a\<close> and fails in the next iteration, and both repetitions
  over it return.
\<close>

theorem repetition_zero_length_counterexample:
  "outcome (parse exampleEnv (Suc 0) (user succeedOnce) ''a'' 0 (newValues ''a'') (newContext ''a'')
      emptyHeap ANil) = Some (0, None) \<and>
   (0::int) < int (length ''a'') \<and>
   outcome (parse exampleEnv (Suc 2) (Zom (user succeedOnce)) ''a'' 0 (newValues ''a'')
      (newContext ''a'') emptyHeap ANil) = Some (0, None) \<and>
   outcome (parse exampleEnv (Suc 2) (Oom (user succeedOnce)) ''a'' 0 (newValues ''a'')
      (newContext ''a'') emptyHeap ANil) = Some (0, None)"
proof -
  have "outcome (parse exampleEnv (Suc 0) (user succeedOnce) ''a'' 0 (newValues ''a'')
      (newContext ''a'') emptyHeap ANil) = Some (0, None)" by code_simp
  moreover have "(0::int) < int (length ''a'')" by simp
  moreover have "outcome (parse exampleEnv (Suc 2) (Zom (user succeedOnce)) ''a'' 0
      (newValues ''a'') (newContext ''a'') emptyHeap ANil) = Some (0, None)" by code_simp
  moreover have "outcome (parse exampleEnv (Suc 2) (Oom (user succeedOnce)) ''a'' 0
      (newValues ''a'') (newContext ''a'') emptyHeap ANil) = Some (0, None)" by code_simp
  ultimately show ?thesis by blast
qed


text \<open>Literals in a plain state, and options and and-predicates over them.\<close>

lemma literalString_loop_returns: "literalString_loop s p li l \<noteq> Diverged"
  by (induction li arbitrary: l) (auto split: option.splits)

lemma literal_plain:
  assumes "plainState a v c h"
  shows "parse E (Suc n) (literalString li a) s q v c h d =
     (case literalString_loop s q li 0 of
        Return matched \<Rightarrow>
          if matched then Return (int (length li), None, v, c, h(a := IsWord False))
          else Return (0, Some (mkOperatorError E [li] s q (int (length li))), v,
                 setErrorPos q c, h)
      | Panic \<Rightarrow> Panic
      | Diverged \<Rightarrow> Diverged)"
proof -
  from assms have w: "wordOpe c = None" and ws: "whitespaceOpe c = None"
    and h: "h a = Uninit \<or> h a = IsWord False"
    by (simp_all add: plainState_def)
  from h have upd: "initIsWord (parse E n) li a s c h = Return (h(a := IsWord False))"
  proof
    assume "h a = Uninit"
    then show ?thesis by (simp add: initIsWord_def w)
  next
    assume u: "h a = IsWord False"
    then have "h(a := IsWord False) = h" by auto
    with u show ?thesis by (simp add: initIsWord_def)
  qed
  show ?thesis
    by (cases "literalString_loop s q li 0")
       (simp_all add: parseCore_def literalString_parseCore_def upd isWord_def
          skipWhitespace_def ws Let_def)
qed

lemma literal_progressing:
  assumes "li \<noteq> []"
  shows "progressing E (literalString li a) s p d (\<lambda>l. plainState a)"
  unfolding progressing_def
proof (intro allI impI conjI)
  fix l v c h
  assume a: "plainState a v c h \<and> p + l < int (length s)"
  then have ps: "plainState a v c h" by simp
  have "parse E (Suc 0) (literalString li a) s (p + l) v c h d \<noteq> Diverged"
    unfolding literal_plain [OF ps]
    using literalString_loop_returns [of s "p + l" li 0]
    by (cases "literalString_loop s (p + l) li 0") simp_all
  then show "\<exists>n. parse E n (literalString li a) s (p + l) v c h d \<noteq> Diverged" by blast
next
  fix l v c h n chl v1 c1 h1
  assume a: "plainState a v c h \<and> p + l < int (length s)"
    and r: "parse E n (literalString li a) s (p + l) v c h d = Return (chl, None, v1, c1, h1)"
  from a have ps: "plainState a v c h" by simp
  from r obtain m where n: "n = Suc m" by (cases n) auto
  from r have "chl = int (length li) \<and> v1 = v \<and> c1 = c \<and> h1 = h(a := IsWord False)"
    unfolding n literal_plain [OF ps]
    by (auto split: exec.splits if_splits)
  with ps assms show "1 \<le> chl" by (cases li) simp_all
  from \<open>chl = int (length li) \<and> v1 = v \<and> c1 = c \<and> h1 = h(a := IsWord False)\<close> ps
  show "plainState a v1 c1 h1" by (simp add: plainState_def)
qed


lemma option_mismatch_stalling:
  assumes "literalString_loop s q li 0 = Return False"
  shows "stalling E (Opt (literalString li a)) s q d (\<lambda>v c h. True)"
  unfolding stalling_def
proof (intro allI impI)
  fix n v c h
  show "parse E n (Opt (literalString li a)) s q v c h d = Diverged \<or>
        (\<exists>v1 c1 h1. parse E n (Opt (literalString li a)) s q v c h d =
           Return (0, None, v1, c1, h1) \<and> True)"
  proof (cases n)
    case 0
    then show ?thesis by simp
  next
    case (Suc m)
    then show ?thesis
      using assms
      by (cases m)
         (simp_all add: Opt_def parseCore_def option_parseCore_def literalString_parseCore_def
            Let_def)
  qed
qed

lemma andPredicate_match_stalling:
  assumes "literalString_loop s q li 0 = Return True"
  shows "stalling E (Apd (literalString li a)) s q d (plainState a)"
  unfolding stalling_def
proof (intro allI impI)
  fix n v c h
  assume ps: "plainState a v c h"
  show "parse E n (Apd (literalString li a)) s q v c h d = Diverged \<or>
        (\<exists>v1 c1 h1. parse E n (Apd (literalString li a)) s q v c h d =
           Return (0, None, v1, c1, h1) \<and> plainState a v1 c1 h1)"
  proof (cases n)
    case 0
    then show ?thesis by simp
  next
    case (Suc m)
    show ?thesis
    proof (cases m)
      case 0
      with Suc show ?thesis
        by (simp add: Apd_def parseCore_def andPredicate_parseCore_def inFreshFrame_def
            push_def)
    next
      case (Suc j)
      let ?nv = "newValues (input c)"
      let ?c0 = "c\<lparr>svStack := svStack c @ [?nv]\<rparr>"
      from ps have ps0: "plainState a ?nv ?c0 h" by (simp add: plainState_def)
      have child: "parse E (Suc j) (literalString li a) s q ?nv ?c0 h d =
          Return (int (length li), None, ?nv, ?c0, h(a := IsWord False))"
        unfolding literal_plain [OF ps0] using assms by simp
      have "parse E (Suc (Suc j)) (Apd (literalString li a)) s q v c h d =
          Return (0, None, v, ?c0\<lparr>svStack := butlast (svStack ?c0)\<rparr>, h(a := IsWord False))"
        unfolding parse.simps(2) [of E "Suc j" "Apd (literalString li a)" s q v c h d]
        by (simp add: Apd_def parseCore_def andPredicate_parseCore_def inFreshFrame_def
            push_def pop_def child del: parse.simps)
      moreover have "plainState a v (?c0\<lparr>svStack := butlast (svStack ?c0)\<rparr>)
          (h(a := IsWord False))"
        using ps by (simp add: plainState_def)
      ultimately show ?thesis using \<open>n = Suc m\<close> Suc by blast
    qed
  qed
qed

text \<open>
  The repetitions over the literal \<open>abc\<close> terminate on \<open>abcabc\<close> (with length 6). Over an
  option or an and-predicate of the literal \<open>a\<close> they run forever on \<open>ab\<close>: the option after
  one iteration, at position 1, where the literal does not match; the and-predicate at
  position 0.
\<close>

theorem repetition_termination_witness:
  "(\<exists>n. parse exampleEnv n (Zom (literalString ''abc'' 0)) ''abcabc'' 0 (newValues ''abcabc'')
      (newContext ''abcabc'') emptyHeap ANil \<noteq> Diverged) \<and>
   (\<exists>n. parse exampleEnv n (Oom (literalString ''abc'' 0)) ''abcabc'' 0 (newValues ''abcabc'')
      (newContext ''abcabc'') emptyHeap ANil \<noteq> Diverged) \<and>
   outcome (parse exampleEnv (Suc 3) (Zom (literalString ''abc'' 0)) ''abcabc'' 0
      (newValues ''abcabc'') (newContext ''abcabc'') emptyHeap ANil) = Some (6, None) \<and>
   (\<forall>n. parse exampleEnv n (Zom (Opt (literalString ''a'' 0))) ''ab'' 0 (newValues ''ab'')
      (newContext ''ab'') emptyHeap ANil = Diverged) \<and>
   (\<forall>n. parse exampleEnv n (Zom (Apd (literalString ''a'' 0))) ''ab'' 0 (newValues ''ab'')
      (newContext ''ab'') emptyHeap ANil = Diverged) \<and>
   (\<forall>n. parse exampleEnv n (Oom (Opt (literalString ''a'' 0))) ''ab'' 0 (newValues ''ab'')
      (newContext ''ab'') emptyHeap ANil = Diverged)"
proof -
  let ?lit = "literalString ''abc'' 0"
  let ?opt = "Opt (literalString ''a'' 0)"
  let ?apd = "Apd (literalString ''a'' 0)"
  let ?v6 = "newValues ''abcabc''" and ?c6 = "newContext ''abcabc''"
  let ?v2 = "newValues ''ab''" and ?c2 = "newContext ''ab''"
  have prog: "progressing exampleEnv ?lit ''abcabc'' 0 ANil (\<lambda>l. plainState 0)"
    by (rule literal_progressing) simp
  have ps6: "plainState 0 ?v6 ?c6 emptyHeap"
    by (simp add: plainState_def newContext_def emptyHeap_def)
  have ps2: "plainState 0 ?v2 ?c2 emptyHeap"
    by (simp add: plainState_def newContext_def emptyHeap_def)
  note inst = repetition_termination [where E = exampleEnv and d = ANil and p = 0]
  from inst [where ope = ?lit and s = "''abcabc''" and I = "\<lambda>l. plainState 0" and v = ?v6
      and c = ?c6 and h = emptyHeap, THEN conjunct1, rule_format] ps6 prog
  have zt: "\<exists>n. parse exampleEnv n (Zom ?lit) ''abcabc'' 0 ?v6 ?c6 emptyHeap ANil \<noteq> Diverged"
    by blast
  have first_ok: "\<exists>n. parse exampleEnv n ?lit ''abcabc'' 0 ?v6 ?c6 emptyHeap ANil \<noteq> Diverged"
  proof -
    have "outcome (parse exampleEnv (Suc 0) ?lit ''abcabc'' 0 ?v6 ?c6 emptyHeap ANil)
      = Some (3, None)" by code_simp
    then have "parse exampleEnv (Suc 0) ?lit ''abcabc'' 0 ?v6 ?c6 emptyHeap ANil \<noteq> Diverged"
      by (auto simp: outcome_def)
    then show ?thesis by blast
  qed
  have first_inv: "\<forall>n l0 v0 c0 h0.
      parse exampleEnv n ?lit ''abcabc'' 0 ?v6 ?c6 emptyHeap ANil = Return (l0, None, v0, c0, h0)
      \<longrightarrow> plainState 0 v0 c0 h0"
  proof (intro allI impI)
    fix n l0 v0 c0 h0
    assume r: "parse exampleEnv n ?lit ''abcabc'' 0 ?v6 ?c6 emptyHeap ANil
      = Return (l0, None, v0, c0, h0)"
    then obtain m where n: "n = Suc m" by (cases n) auto
    from r have "c0 = ?c6 \<and> h0 = emptyHeap(0 := IsWord False)"
      unfolding n literal_plain [OF ps6] by (auto split: exec.splits if_splits)
    then show "plainState 0 v0 c0 h0"
      by (simp add: plainState_def newContext_def)
  qed
  from inst [where ope = ?lit and s = "''abcabc''" and I = "\<lambda>l. plainState 0" and v = ?v6
      and c = ?c6 and h = emptyHeap, THEN conjunct2, THEN conjunct1, rule_format]
    first_ok first_inv prog
  have ot: "\<exists>n. parse exampleEnv n (Oom ?lit) ''abcabc'' 0 ?v6 ?c6 emptyHeap ANil \<noteq> Diverged"
    by blast
  have six: "outcome (parse exampleEnv (Suc 3) (Zom ?lit) ''abcabc'' 0 ?v6 ?c6 emptyHeap ANil)
    = Some (6, None)" by code_simp
  have mis: "literalString_loop ''ab'' (0 + 1) ''a'' 0 = Return False"
    by (simp add: byteAt_def)
  have hit: "literalString_loop ''ab'' (0 + 0) ''a'' 0 = Return True"
    by (simp add: byteAt_def)
  have "map_option fst (afterIterations (parse exampleEnv 2) 1 ?opt ''ab'' 0 0 ?v2 ?c2
      emptyHeap ANil) = Some 1" by code_simp
  then obtain vm cm hm where reach: "afterIterations (parse exampleEnv 2) 1 ?opt ''ab'' 0 0
      ?v2 ?c2 emptyHeap ANil = Some (1, vm, cm, hm)"
    by (cases "afterIterations (parse exampleEnv 2) 1 ?opt ''ab'' 0 0 ?v2 ?c2 emptyHeap ANil")
       auto
  from inst [where ope = ?opt and s = "''ab''" and J = "\<lambda>v c h. True" and v = ?v2
      and c = ?c2 and h = emptyHeap and nr = 2 and m = 1 and l = 1 and vm = vm and cm = cm
      and hm = hm, THEN conjunct2, THEN conjunct2, THEN conjunct1, rule_format]
    reach option_mismatch_stalling [OF mis]
  have zd1: "\<forall>n. parse exampleEnv n (Zom ?opt) ''ab'' 0 ?v2 ?c2 emptyHeap ANil = Diverged"
    by simp
  have reach0: "afterIterations (parse exampleEnv 0) 0 ?apd ''ab'' 0 0 ?v2 ?c2 emptyHeap ANil
      = Some (0, ?v2, ?c2, emptyHeap)" by simp
  from inst [where ope = ?apd and s = "''ab''" and J = "plainState 0" and v = ?v2
      and c = ?c2 and h = emptyHeap and nr = 0 and m = 0 and l = 0 and vm = ?v2 and cm = ?c2
      and hm = emptyHeap, THEN conjunct2, THEN conjunct2, THEN conjunct1, rule_format]
    reach0 ps2 andPredicate_match_stalling [OF hit]
  have zd2: "\<forall>n. parse exampleEnv n (Zom ?apd) ''ab'' 0 ?v2 ?c2 emptyHeap ANil = Diverged"
    by simp
  have "outcome (parse exampleEnv 2 ?opt ''ab'' 0 ?v2 ?c2 emptyHeap ANil) = Some (1, None)"
    by code_simp
  then obtain v0 c0 h0 where
    fst: "parse exampleEnv 2 ?opt ''ab'' 0 ?v2 ?c2 emptyHeap ANil = Return (1, None, v0, c0, h0)"
    by (auto simp: outcome_def split: exec.splits)
  have reach1: "afterIterations (parse exampleEnv 2) 0 ?opt ''ab'' 0 1 v0 c0 h0 ANil
      = Some (1, v0, c0, h0)" by simp
  from inst [where ope = ?opt and s = "''ab''" and J = "\<lambda>v c h. True" and v = ?v2
      and c = ?c2 and h = emptyHeap and nr = 2 and m = 0 and l = 1 and vm = v0 and cm = c0
      and hm = h0 and lo = 1 and vo = v0 and co = c0 and ho = h0,
      THEN conjunct2, THEN conjunct2, THEN conjunct2, rule_format]
    fst reach1 option_mismatch_stalling [OF mis]
  have od: "\<forall>n. parse exampleEnv n (Oom ?opt) ''ab'' 0 ?v2 ?c2 emptyHeap ANil = Diverged"
    by simp
  from zt ot six zd1 zd2 od show ?thesis by blast
qed

end
